theory Spec2Isabelle
  imports Complex_Main "HOL-Library.Word"
begin

section \<open>Data model\<close>

text \<open>
  The data file is a sequence of bytes (a \<^verbatim>\<open>Uint8Array\<close>); a byte is a \<^typ>\<open>char\<close>.
  Decoded cell text is kept as its UTF-8 bytes, so \<^verbatim>\<open>TextDecoder.decode\<close> is the
  identity on well-formed input. JavaScript numbers that hold counts, sizes and
  pixel values are mathematical integers (exact below \<open>2^53\<close>); the elements of a
  \<^verbatim>\<open>BigUint64Array\<close> are 64-bit words.
\<close>

definition NEWLINE :: char where
  "NEWLINE = CHR 0x0A"

definition SEMICOLON :: char where
  "SEMICOLON = CHR 0x3B"

definition READ_BUFFER_SIZE :: int where
  "READ_BUFFER_SIZE = 32 * 1024"

definition TOTAL_COLS :: int where
  "TOTAL_COLS = 2"

definition COL_LETTERS :: "string list" where
  "COL_LETTERS = [''A'', ''B'']"

record FileIndex =
  totalRows :: nat
  offsets :: "64 word list"
  granularity :: nat

record Config =
  filePath :: string
  port :: nat
  indexGranularity :: nat
  indexPath :: "string option"

record SliceResponse =
  startRow :: int
  rowCount :: int
  startCol :: int
  colCount :: int
  colLetters :: "string list"
  cellsByRow :: "string list list"

text \<open>The seed file of the end-to-end scenarios: five LT-terminated records.\<close>

definition seed_file :: "char list" where
  "seed_file =
     ''Hamburg;12.0'' @ [NEWLINE] @
     ''Bulawayo;8.9'' @ [NEWLINE] @
     ''Palembang;38.8'' @ [NEWLINE] @
     ''St. John's;15.2'' @ [NEWLINE] @
     ''Cracow;12.6'' @ [NEWLINE]"

section \<open>Index builder (indexer.ts, buildIndex)\<close>

text \<open>
  The locals of \<^verbatim>\<open>buildIndex\<close> that the scan updates. \<open>sc_offsets\<close> is the
  \<^verbatim>\<open>bigint[]\<close> the anchors are pushed to; \<open>sc_currentOffset\<close> is a bigint.
\<close>

record scan =
  sc_totalRows :: nat
  sc_currentOffset :: nat
  sc_rowsSinceLastIndex :: nat
  sc_offsets :: "nat list"

text \<open>
  The inner \<^verbatim>\<open>for (let i = 0; i < chunk.length; i++)\<close> loop, by recursion on the bytes
  of the chunk still to visit; \<open>i\<close> is the index of the first of them.
\<close>

fun scanChunk :: "nat \<Rightarrow> char list \<Rightarrow> nat \<Rightarrow> scan \<Rightarrow> scan" where
  "scanChunk g [] i st = st"
| "scanChunk g (b # bs) i st =
     scanChunk g bs (i + 1)
       (if b = NEWLINE then
          (let st1 = st\<lparr>sc_totalRows := sc_totalRows st + 1,
                          sc_rowsSinceLastIndex := sc_rowsSinceLastIndex st + 1\<rparr>
           in if sc_rowsSinceLastIndex st1 \<ge> g
              then st1\<lparr>sc_offsets := sc_offsets st1 @ [sc_currentOffset st1 + i + 1],
                        sc_rowsSinceLastIndex := 0\<rparr>
              else st1)
        else st)"

text \<open>
  The \<^verbatim>\<open>while (!done)\<close> loop over the chunks the stream delivers, in order; the list
  ends where the reader reports \<^verbatim>\<open>done\<close>.
\<close>

fun readLoop :: "nat \<Rightarrow> char list list \<Rightarrow> scan \<Rightarrow> scan" where
  "readLoop g [] st = st"
| "readLoop g (chunk # rest) st =
     readLoop g rest
       ((scanChunk g chunk 0 st)\<lparr>sc_currentOffset := sc_currentOffset st + length chunk\<rparr>)"

definition scan_init :: scan where
  "scan_init = \<lparr>sc_totalRows = 0, sc_currentOffset = 0,
                 sc_rowsSinceLastIndex = 0, sc_offsets = [0]\<rparr>"

text \<open>\<^verbatim>\<open>new BigUint64Array(offsets)\<close>: every bigint is reduced modulo \<open>2^64\<close>.\<close>

definition toBigUint64Array :: "nat list \<Rightarrow> 64 word list" where
  "toBigUint64Array xs = map word_of_nat xs"

definition buildIndex :: "Config \<Rightarrow> char list list \<Rightarrow> FileIndex" where
  "buildIndex config chunks =
     (let st = readLoop (indexGranularity config) chunks scan_init
      in \<lparr>totalRows = sc_totalRows st,
          offsets = toBigUint64Array (sc_offsets st),
          granularity = indexGranularity config\<rparr>)"

definition seed_config :: Config where
  "seed_config = \<lparr>filePath = ''measurements.txt'', port = 4001,
                   indexGranularity = 2, indexPath = None\<rparr>"

section \<open>Column letters (grid.ts, columnIndexToLetters)\<close>

text \<open>
  The \<^verbatim>\<open>while (true)\<close> loop; \<open>chars\<close> is the array of one-letter strings pushed so
  far. \<open>n\<close> is an unsigned 32-bit value, so it is never negative.
\<close>

function lettersLoop :: "nat \<Rightarrow> string list \<Rightarrow> string list" where
  "lettersLoop n chars =
     (let rem = n mod 26;
          chars1 = chars @ [[char_of (65 + rem)]];
          n1 = n div 26
      in if n1 = 0 then chars1 else lettersLoop (n1 - 1) chars1)"
  by pat_completeness auto
termination
  by (relation "measure fst") auto

declare lettersLoop.simps [simp del]

text \<open>\<^verbatim>\<open>index >>> 0\<close> is the index reduced modulo \<open>2^32\<close>.\<close>

definition columnIndexToLetters :: "int \<Rightarrow> string" where
  "columnIndexToLetters idx = concat (rev (lettersLoop (nat (idx mod 2 ^ 32)) []))"

text \<open>
  The scheme in the specification's words: repeatedly take \<open>n mod 26\<close>, emit
  \<open>'A' + rem\<close>, then \<open>n = \<lfloor>n/26\<rfloor> - 1\<close>, until \<open>n < 0\<close>. The label reads the emitted
  letters last to first (\<open>26 \<rightarrow> AA\<close>, \<open>27 \<rightarrow> AB\<close>).
\<close>

function spec_emit :: "int \<Rightarrow> string" where
  "spec_emit n =
     (if n < 0 then [] else char_of (65 + nat (n mod 26)) # spec_emit (n div 26 - 1))"
  by pat_completeness auto
termination
  by (relation "measure (\<lambda>n. nat (n + 1))") auto

declare spec_emit.simps [simp del]

definition spec_label :: "int \<Rightarrow> string" where
  "spec_label n = rev (spec_emit n)"

section \<open>Index codec (indexer.ts, saveIndex, loadIndex, getOrBuildIndex)\<close>

type_synonym u8 = "8 word"

datatype js_error = RangeError

text \<open>Little-endian bytes of a number: \<open>le_bytes k n\<close> are the \<open>k\<close> low bytes of \<open>n\<close>.\<close>

fun le_bytes :: "nat \<Rightarrow> nat \<Rightarrow> u8 list" where
  "le_bytes 0 n = []"
| "le_bytes (Suc k) n = word_of_nat (n mod 256) # le_bytes k (n div 256)"

fun from_le :: "u8 list \<Rightarrow> nat" where
  "from_le [] = 0"
| "from_le (b # bs) = unat b + 256 * from_le bs"

text \<open>
  \<^verbatim>\<open>DataView.setBigUint64(_, v, true)\<close>: the eight little-endian bytes of \<open>v\<close> reduced
  modulo \<open>2^64\<close>.
\<close>

definition setBigUint64 :: "nat \<Rightarrow> u8 list" where
  "setBigUint64 v = le_bytes 8 (v mod 2 ^ 64)"

text \<open>
  \<^verbatim>\<open>DataView.getBigUint64(byteOffset, true)\<close>: a \<^verbatim>\<open>RangeError\<close> when the eight bytes do not
  lie inside the buffer.
\<close>

definition getBigUint64 :: "u8 list \<Rightarrow> nat \<Rightarrow> js_error + nat" where
  "getBigUint64 buffer byteOffset =
     (if byteOffset + 8 > length buffer then Inl RangeError
      else Inr (from_le (take 8 (drop byteOffset buffer))))"

text \<open>The bytes of a \<^verbatim>\<open>BigUint64Array\<close>'s buffer (little-endian elements).\<close>

definition bufferOf :: "64 word list \<Rightarrow> u8 list" where
  "bufferOf ws = concat (map (\<lambda>w. le_bytes 8 (unat w)) ws)"

function elementsOf :: "u8 list \<Rightarrow> 64 word list" where
  "elementsOf bs =
     (if length bs < 8 then [] else word_of_nat (from_le (take 8 bs)) # elementsOf (drop 8 bs))"
  by pat_completeness auto
termination
  by (relation "measure length") auto

declare elementsOf.simps [simp del]

text \<open>
  \<^verbatim>\<open>new BigUint64Array(buffer)\<close>: a \<^verbatim>\<open>RangeError\<close> when the byte length is not a multiple
  of 8.
\<close>

definition newBigUint64Array :: "u8 list \<Rightarrow> js_error + 64 word list" where
  "newBigUint64Array buffer =
     (if length buffer mod 8 \<noteq> 0 then Inl RangeError else Inr (elementsOf buffer))"

text \<open>The bytes \<^verbatim>\<open>saveIndex\<close> hands to \<^verbatim>\<open>Bun.write\<close>.\<close>

definition saveIndex :: "FileIndex \<Rightarrow> u8 list" where
  "saveIndex idx =
     setBigUint64 (totalRows idx) @ setBigUint64 (granularity idx) @ bufferOf (offsets idx)"

text \<open>
  \<^verbatim>\<open>loadIndex\<close> on the content of the file at the path, \<open>None\<close> when no file exists
  there. \<open>Inr None\<close> is the \<^verbatim>\<open>null\<close> it returns, \<open>Inl\<close> an exception it throws.
\<close>

definition loadIndex :: "u8 list option \<Rightarrow> js_error + FileIndex option" where
  "loadIndex content =
     (case content of
        None \<Rightarrow> Inr None
      | Some buffer \<Rightarrow>
          (case getBigUint64 buffer 0 of
             Inl e \<Rightarrow> Inl e
           | Inr rows \<Rightarrow>
               (case getBigUint64 buffer 8 of
                  Inl e \<Rightarrow> Inl e
                | Inr gran \<Rightarrow>
                    (case newBigUint64Array (drop 16 buffer) of
                       Inl e \<Rightarrow> Inl e
                     | Inr offs \<Rightarrow>
                         Inr (Some \<lparr>totalRows = rows, offsets = offs, granularity = gran\<rparr>)))))"

text \<open>
  What \<^verbatim>\<open>getOrBuildIndex\<close> reads and writes: the data file as its stream delivers it,
  and the binary files by path. \<open>rebuilt\<close> records whether \<^verbatim>\<open>buildIndex\<close> ran.
\<close>

record world =
  dataChunks :: "char list list"
  files :: "string \<Rightarrow> u8 list option"

record IndexOutcome =
  out_index :: FileIndex
  out_world :: world
  rebuilt :: bool

definition fileSize :: "world \<Rightarrow> nat" where
  "fileSize w = length (concat (dataChunks w))"

text \<open>\<^verbatim>\<open>Math.floor(a / b)\<close> and \<^verbatim>\<open>Math.ceil(a / b)\<close> on integers, \<open>b \<noteq> 0\<close>.\<close>

definition floorDiv :: "int \<Rightarrow> int \<Rightarrow> int" where
  "floorDiv a b = a div b"

definition ceilDiv :: "int \<Rightarrow> int \<Rightarrow> int" where
  "ceilDiv a b = - ((- a) div b)"

text \<open>A path is truthy when it is present and not the empty string.\<close>

definition truthyPath :: "string option \<Rightarrow> bool" where
  "truthyPath p = (case p of None \<Rightarrow> False | Some s \<Rightarrow> s \<noteq> [])"

definition buildAndSave :: "Config \<Rightarrow> world \<Rightarrow> IndexOutcome" where
  "buildAndSave config w =
     (let built = buildIndex config (dataChunks w)
      in \<lparr>out_index = built,
          out_world = (if truthyPath (indexPath config)
                   then w\<lparr>files := (files w)(the (indexPath config) \<mapsto> saveIndex built)\<rparr>
                   else w),
          rebuilt = True\<rparr>)"

definition getOrBuildIndex :: "Config \<Rightarrow> world \<Rightarrow> js_error + IndexOutcome" where
  "getOrBuildIndex config w =
     (if truthyPath (indexPath config) then
        (case loadIndex (files w (the (indexPath config))) of
           Inl e \<Rightarrow> Inl e
         | Inr None \<Rightarrow> Inr (buildAndSave config w)
         | Inr (Some cached) \<Rightarrow>
             (let expectedMinRows = floorDiv (int (fileSize w)) 50;
                  expectedMaxRows = ceilDiv (int (fileSize w)) 5
              in if int (totalRows cached) \<ge> expectedMinRows
                    \<and> int (totalRows cached) \<le> expectedMaxRows
                 then Inr \<lparr>out_index = cached, out_world = w, rebuilt = False\<rparr>
                 else Inr (buildAndSave config w)))
      else Inr (buildAndSave config w))"

section \<open>Slicer (slicer.ts)\<close>

text \<open>
  \<^verbatim>\<open>Array.prototype.slice\<close>, \<^verbatim>\<open>TypedArray.prototype.subarray\<close> and \<^verbatim>\<open>Blob.slice\<close> share
  one rule: a negative bound counts from the end, both bounds are clamped to the
  length, and an empty range gives an empty result.
\<close>

definition js_slice :: "'a list \<Rightarrow> int \<Rightarrow> int \<Rightarrow> 'a list" where
  "js_slice xs start stop =
     (let len = int (length xs);
          k = (if start < 0 then max (len + start) 0 else min start len);
          final = (if stop < 0 then max (len + stop) 0 else min stop len)
      in take (nat (max (final - k) 0)) (drop (nat k) xs))"

text \<open>
  The fields of the class \<^verbatim>\<open>Slicer\<close> and its constructor; \<open>sl_file\<close> is the content of the
  data file, \<open>sl_fileSize\<close> its size. \<^verbatim>\<open>readBytes\<close> slices the file as a blob.
\<close>

record Slicer =
  sl_file :: "char list"
  sl_fileSize :: int
  sl_index :: FileIndex

definition newSlicer :: "char list \<Rightarrow> FileIndex \<Rightarrow> Slicer" where
  "newSlicer bytes idx = \<lparr>sl_file = bytes, sl_fileSize = int (length bytes), sl_index = idx\<rparr>"

definition readBytes :: "Slicer \<Rightarrow> int \<Rightarrow> int \<Rightarrow> char list" where
  "readBytes s offset len = js_slice (sl_file s) offset (offset + len)"

text \<open>\<^verbatim>\<open>String.prototype.indexOf\<close> for one character: \<open>-1\<close> when it does not occur.\<close>

fun indexOf :: "string \<Rightarrow> char \<Rightarrow> int" where
  "indexOf [] c = -1"
| "indexOf (x # xs) c =
     (if x = c then 0 else (let i = indexOf xs c in if i = -1 then -1 else i + 1))"

definition splitLine :: "string \<Rightarrow> string list" where
  "splitLine line =
     (let semicolonIdx = indexOf line SEMICOLON
      in if semicolonIdx = -1 then [line, []]
         else [take (nat semicolonIdx) line, drop (nat (semicolonIdx + 1)) line])"

text \<open>The padding loop \<^verbatim>\<open>while (slicedCells.length < colCount) slicedCells.push("")\<close>.\<close>

function padCells :: "string list \<Rightarrow> int \<Rightarrow> string list" where
  "padCells slicedCells colCount0 =
     (if int (length slicedCells) < colCount0 then padCells (slicedCells @ [[]]) colCount0
      else slicedCells)"
  by pat_completeness auto
termination
  by (relation "measure (\<lambda>(cells, n). nat (n - int (length cells)))") auto

declare padCells.simps [simp del]

text \<open>The first loop of \<^verbatim>\<open>parseRows\<close>; its value is \<open>pos\<close> when it ends.\<close>

function skipLoop :: "char list \<Rightarrow> int \<Rightarrow> nat \<Rightarrow> int \<Rightarrow> nat" where
  "skipLoop data skipRows pos rowsSkipped =
     (if pos < length data \<and> rowsSkipped < skipRows
      then skipLoop data skipRows (pos + 1)
             (if data ! pos = NEWLINE then rowsSkipped + 1 else rowsSkipped)
      else pos)"
  by pat_completeness auto
termination
  by (relation "measure (\<lambda>(data, skipRows, pos, rowsSkipped). length data - pos)") auto

declare skipLoop.simps [simp del]

text \<open>The scan for the end of the line; its value is \<open>lineEnd\<close> when it ends.\<close>

function findLineEnd :: "char list \<Rightarrow> nat \<Rightarrow> nat" where
  "findLineEnd data lineEnd =
     (if lineEnd < length data \<and> data ! lineEnd \<noteq> NEWLINE
      then findLineEnd data (lineEnd + 1)
      else lineEnd)"
  by pat_completeness auto
termination
  by (relation "measure (\<lambda>(data, lineEnd). length data - lineEnd)") auto

declare findLineEnd.simps [simp del]

text \<open>
  The body of the second loop for a line that is not empty: decode the bytes
  \<open>[pos, lineEnd)\<close>, split at the first semicolon, slice the columns and pad.
\<close>

definition parseLine :: "char list \<Rightarrow> nat \<Rightarrow> nat \<Rightarrow> int \<Rightarrow> int \<Rightarrow> string list" where
  "parseLine data pos lineEnd startCol0 colCount0 =
     (let line = js_slice data (int pos) (int lineEnd);
          cells = splitLine line;
          slicedCells = js_slice cells startCol0 (startCol0 + colCount0)
      in padCells slicedCells colCount0)"

text \<open>
  The second loop of \<^verbatim>\<open>parseRows\<close>; its value is \<open>rows\<close> when it ends. An empty line
  (\<open>lineEnd = pos\<close>) pushes nothing; either way the loop goes on at \<open>lineEnd + 1\<close>.
\<close>

function parseLoop ::
  "char list \<Rightarrow> int \<Rightarrow> int \<Rightarrow> int \<Rightarrow> nat \<Rightarrow> string list list \<Rightarrow> string list list" where
  "parseLoop data maxRows startCol0 colCount0 pos rows =
     (if pos < length data \<and> int (length rows) < maxRows then
        (let lineEnd = findLineEnd data pos
         in parseLoop data maxRows startCol0 colCount0 (lineEnd + 1)
              (if lineEnd = pos then rows
               else rows @ [parseLine data pos lineEnd startCol0 colCount0]))
      else rows)"
  by pat_completeness auto
termination
proof (relation "measure (\<lambda>(data, maxRows, sc, cc, pos, rows). length data - pos)", goal_cases)
  case 1
  show ?case by simp
next
  case (2 data maxRows sc cc pos rows x)
  have "pos \<le> findLineEnd data pos"
    by (induction data pos rule: findLineEnd.induct)
      (metis Suc_eq_plus1 Suc_leD findLineEnd.simps order_refl)
  with 2(1) 2(2) show ?case by auto
qed

declare parseLoop.simps [simp del]

definition parseRows :: "char list \<Rightarrow> int \<Rightarrow> int \<Rightarrow> int \<Rightarrow> int \<Rightarrow> string list list" where
  "parseRows data skipRows maxRows startCol0 colCount0 =
     parseLoop data maxRows startCol0 colCount0 (skipLoop data skipRows 0 0) []"

text \<open>
  The object each exit of \<^verbatim>\<open>getSlice\<close> returns: \<open>rowCount\<close> is the number of rows it
  holds (0 with no rows on the early exit).
\<close>

definition response ::
  "int \<Rightarrow> int \<Rightarrow> int \<Rightarrow> string list list \<Rightarrow> SliceResponse" where
  "response startRow1 startCol1 colCount1 rows =
     \<lparr>startRow = startRow1, rowCount = int (length rows),
      startCol = startCol1, colCount = colCount1,
      colLetters = js_slice COL_LETTERS startCol1 (startCol1 + colCount1),
      cellsByRow = rows\<rparr>"

text \<open>
  \<^verbatim>\<open>getSlice\<close>. The result is \<open>None\<close> where the source leaves the integers: a zero
  granularity (the quotient is \<^verbatim>\<open>Infinity\<close> or \<^verbatim>\<open>NaN\<close>) or an index entry outside
  the offsets array (the element is \<^verbatim>\<open>undefined\<close>, its number \<^verbatim>\<open>NaN\<close>).
\<close>

definition getSlice :: "Slicer \<Rightarrow> int \<Rightarrow> int \<Rightarrow> int \<Rightarrow> int \<Rightarrow> SliceResponse option" where
  "getSlice s startRow0 rowCount0 startCol0 colCount0 =
     (let total = int (totalRows (sl_index s));
          gran = int (granularity (sl_index s));
          startRow1 = max 0 (min startRow0 (total - 1));
          rowCount1 = min rowCount0 (total - startRow1);
          startCol1 = max 0 (min startCol0 (TOTAL_COLS - 1));
          colCount1 = min colCount0 (TOTAL_COLS - startCol1)
      in if rowCount1 \<le> 0 then Some (response startRow1 startCol1 colCount1 [])
         else if gran = 0 then None
         else
           (let indexEntry = floorDiv startRow1 gran
            in if nat indexEntry \<ge> length (offsets (sl_index s)) then None
               else
                 (let indexOffset = int (unat (offsets (sl_index s) ! nat indexEntry));
                      rowsToSkip = startRow1 - indexEntry * gran;
                      estimatedBytesNeeded = (rowsToSkip + rowCount1) * 30;
                      bytesToRead = min (max estimatedBytesNeeded READ_BUFFER_SIZE)
                                        (sl_fileSize s - indexOffset);
                      chunk = readBytes s indexOffset bytesToRead;
                      rows = parseRows chunk rowsToSkip rowCount1 startCol1 colCount1
                  in if int (length rows) < rowCount1 \<and> startRow1 + int (length rows) < total
                     then
                       (let additionalBytesNeeded = (rowCount1 - int (length rows)) * 50;
                            newBytesToRead = min (bytesToRead + additionalBytesNeeded)
                                                 (sl_fileSize s - indexOffset)
                        in if newBytesToRead > bytesToRead
                           then
                             (let largerChunk = readBytes s indexOffset newBytesToRead;
                                  moreRows = parseRows largerChunk rowsToSkip rowCount1
                                               startCol1 colCount1
                              in Some (response startRow1 startCol1 colCount1 moreRows))
                           else Some (response startRow1 startCol1 colCount1 rows))
                     else Some (response startRow1 startCol1 colCount1 rows))))"

section \<open>Viewport translator (slicer.ts, computeSliceParams)\<close>

record Viewport =
  screenWidth :: int
  screenHeight :: int
  horizontalBuffer :: int
  verticalBuffer :: int
  defaultColumnWidth :: int
  defaultRowHeight :: int
  scrollLeft :: int
  scrollTop :: int
  maxRows :: int
  maxCols :: int

record SliceParams =
  p_startRow :: int
  p_rowCount :: int
  p_startCol :: int
  p_colCount :: int

text \<open>
  \<^verbatim>\<open>computeSliceParams\<close>. The result is \<open>None\<close> where a divisor is zero: the quotient is
  then \<^verbatim>\<open>Infinity\<close> or \<^verbatim>\<open>NaN\<close>, not an integer.
\<close>

definition computeSliceParams :: "Viewport \<Rightarrow> SliceParams option" where
  "computeSliceParams params =
     (if defaultRowHeight params = 0 \<or> defaultColumnWidth params = 0 then None
      else
        (let startRow1 = floorDiv (scrollTop params) (defaultRowHeight params);
             visibleRows = ceilDiv (screenHeight params) (defaultRowHeight params);
             rowCount1 = visibleRows + verticalBuffer params * 2;
             remainingRows = maxRows params - startRow1;
             rowCount2 = (if rowCount1 > remainingRows then remainingRows else rowCount1);
             startCol1 = floorDiv (scrollLeft params) (defaultColumnWidth params);
             visibleCols = ceilDiv (screenWidth params) (defaultColumnWidth params);
             colCount1 = visibleCols + horizontalBuffer params * 2;
             remainingCols = maxCols params - startCol1;
             colCount2 = (if colCount1 > remainingCols then remainingCols else colCount1);
             rowCount3 = min rowCount2 1000;
             colCount3 = min colCount2 200
         in Some \<lparr>p_startRow = max 0 startRow1, p_rowCount = max 0 rowCount3,
                  p_startCol = max 0 startCol1, p_colCount = max 0 colCount3\<rparr>))"

section \<open>Files and slicers the properties are stated on\<close>

text \<open>
  The data model of the specification: a file that holds the records \<open>recs\<close>, each
  followed by the line terminator.
\<close>

definition file_of :: "string list \<Rightarrow> char list" where
  "file_of recs = concat (map (\<lambda>r. r @ [NEWLINE]) recs)"

text \<open>The slicer over a file and the index built from the file's stream.\<close>

definition slicerFor :: "Config \<Rightarrow> char list list \<Rightarrow> Slicer" where
  "slicerFor config chunks = newSlicer (concat chunks) (buildIndex config chunks)"

definition seed_slicer :: Slicer where
  "seed_slicer = slicerFor seed_config [seed_file]"

text \<open>A viewport scrolled to pixel 2400 over a table of five rows.\<close>

definition scrolled_viewport :: Viewport where
  "scrolled_viewport =
     \<lparr>screenWidth = 1000, screenHeight = 480, horizontalBuffer = 2, verticalBuffer = 5,
      defaultColumnWidth = 100, defaultRowHeight = 24, scrollLeft = 0, scrollTop = 2400,
      maxRows = 5, maxCols = 2\<rparr>"

text \<open>A file of one record and a configuration with granularity 1.\<close>

definition one_record_config :: Config where
  "one_record_config = \<lparr>filePath = ''measurements.txt'', port = 4001,
                         indexGranularity = 1, indexPath = None\<rparr>"

definition one_record_file :: "char list" where
  "one_record_file = ''a;1'' @ [NEWLINE]"

text \<open>
  A world whose index file holds the saved index of the seed file, and one whose
  index file claims 100 rows for the same data.
\<close>

definition cache_config :: Config where
  "cache_config = \<lparr>filePath = ''measurements.txt'', port = 4001,
                    indexGranularity = 2, indexPath = Some ''measurements.idx''\<rparr>"

definition seed_index :: FileIndex where
  "seed_index = \<lparr>totalRows = 5, offsets = [0, 26, 57], granularity = 2\<rparr>"

definition stale_index :: FileIndex where
  "stale_index = \<lparr>totalRows = 100, offsets = [0], granularity = 2\<rparr>"

definition world_with :: "FileIndex \<Rightarrow> world" where
  "world_with idx =
     \<lparr>dataChunks = [seed_file],
      files = (\<lambda>p. if p = ''measurements.idx'' then Some (saveIndex idx) else None)\<rparr>"

text \<open>The records of the seed file.\<close>

definition seed_records :: "string list" where
  "seed_records =
     [''Hamburg;12.0'', ''Bulawayo;8.9'', ''Palembang;38.8'', ''St. John's;15.2'', ''Cracow;12.6'']"

text \<open>
  A file of three lines whose second line is empty, and a file whose first record
  has 40000 bytes.
\<close>

definition blank_line_file :: "char list" where
  "blank_line_file = ''a;1'' @ [NEWLINE] @ [NEWLINE] @ ''b;2'' @ [NEWLINE]"

definition long_record_file :: "char list" where
  "long_record_file = replicate 40000 (CHR ''x'') @ [NEWLINE] @ ''b;2'' @ [NEWLINE]"

section \<open>Properties of the column letters\<close>

lemma spec_emit_neg: "n < 0 \<Longrightarrow> spec_emit n = []"
  by (subst spec_emit.simps) simp

lemma spec_emit_nonneg:
  "0 \<le> n \<Longrightarrow> spec_emit n = char_of (65 + nat (n mod 26)) # spec_emit (n div 26 - 1)"
  by (subst spec_emit.simps) simp

lemma lettersLoop_spec:
  "concat (rev (lettersLoop n chars)) = rev (spec_emit (int n)) @ concat (rev chars)"
proof (induction n chars rule: lettersLoop.induct)
  case (1 n chars)
  have d: "nat (int n mod 26) = n mod 26"
    by (simp add: nat_mod_distrib)
  show ?case
  proof (cases "n div 26 = 0")
    case True
    then have "n < 26" by (simp add: div_eq_0_iff)
    then have "int n div 26 - 1 < 0" by simp
    then have "spec_emit (int n) = [char_of (65 + n mod 26)]"
      using spec_emit_nonneg [of "int n"] by (simp add: spec_emit_neg d)
    with True show ?thesis
      by (subst lettersLoop.simps) simp
  next
    case False
    then have ge: "26 \<le> n" by (simp add: div_eq_0_iff)
    have c: "int n div 26 - 1 = int (n div 26 - 1)"
      using ge by (simp add: of_nat_diff zdiv_int)
    have e: "spec_emit (int n) = char_of (65 + n mod 26) # spec_emit (int (n div 26 - 1))"
      using spec_emit_nonneg [of "int n"] by (simp only: c d of_nat_0_le_iff)
    have "concat (rev (lettersLoop n chars)) =
          concat (rev (lettersLoop (n div 26 - 1) (chars @ [[char_of (65 + n mod 26)]])))"
      using False by (subst lettersLoop.simps) (simp add: Let_def)
    also have "\<dots> = rev (spec_emit (int (n div 26 - 1))) @
                     concat (rev (chars @ [[char_of (65 + n mod 26)]]))"
      using "1.IH" [OF refl refl refl False] .
    finally show ?thesis
      by (simp add: e)
  qed
qed

lemma columnIndexToLetters_spec_label:
  assumes "0 \<le> n" "n < 2 ^ 32"
  shows "columnIndexToLetters n = spec_label n"
proof -
  have "n mod 2 ^ 32 = n" using assms by simp
  then show ?thesis
    using assms lettersLoop_spec [of "nat n" "[]"]
    by (simp add: columnIndexToLetters_def spec_label_def)
qed

text \<open>
  C9, as amended. The five labels of the specification hold, and for every index
  from 0 up to (not including) \<open>2^32\<close> the label is the one of the base-26 scheme
  without a zero digit. The bound is the unsigned 32-bit conversion the function
  applies to its argument first.
\<close>

theorem columnIndexToLetters_scheme:
  "columnIndexToLetters 0 = ''A'' \<and> columnIndexToLetters 25 = ''Z''
   \<and> columnIndexToLetters 26 = ''AA'' \<and> columnIndexToLetters 701 = ''ZZ''
   \<and> columnIndexToLetters 702 = ''AAA''
   \<and> (\<forall>n. 0 \<le> n \<and> n < 2 ^ 32 \<longrightarrow> columnIndexToLetters n = spec_label n)"
proof -
  have "columnIndexToLetters 0 = ''A''" by code_simp
  moreover have "columnIndexToLetters 25 = ''Z''" by code_simp
  moreover have "columnIndexToLetters 26 = ''AA''" by code_simp
  moreover have "columnIndexToLetters 701 = ''ZZ''" by code_simp
  moreover have "columnIndexToLetters 702 = ''AAA''" by code_simp
  ultimately show ?thesis
    using columnIndexToLetters_spec_label by blast
qed

theorem columnIndexToLetters_scheme_witness:
  "(0::int) \<le> 27 \<and> (27::int) < 2 ^ 32 \<and> columnIndexToLetters 27 = spec_label 27
   \<and> spec_label 27 = ''AB''"
proof -
  have "spec_label 27 = ''AB''" by code_simp
  then show ?thesis using columnIndexToLetters_scheme by simp
qed

text \<open>
  C9 as stated fails for a non-negative index outside 32 bits: \<open>2^32\<close> is labelled
  like 0, where the scheme gives a label of seven letters.
\<close>

theorem columnIndexToLetters_wraps_counterexample:
  "columnIndexToLetters 4294967296 \<noteq> spec_label 4294967296"
  by code_simp

section \<open>Properties of the slicer on the seed file\<close>

text \<open>
  C1 as stated fails: the request for five rows from row 10 of the five-row seed
  file is answered with one row, not with the empty response.
\<close>

theorem getSlice_seed_past_end_counterexample:
  "map_option rowCount (getSlice seed_slicer 10 5 0 2) \<noteq> Some 0
   \<and> map_option cellsByRow (getSlice seed_slicer 10 5 0 2) \<noteq> Some []"
  by code_simp

text \<open>
  C1, as amended. The start row 10 is clamped to the last row, 4, and the row count
  to the one row that is left: the response holds the last record of the seed file.
\<close>

theorem getSlice_seed_past_end:
  "getSlice seed_slicer 10 5 0 2 =
     Some \<lparr>startRow = 4, rowCount = 1, startCol = 0, colCount = 2,
           colLetters = [''A'', ''B''], cellsByRow = [[''Cracow'', ''12.6'']]\<rparr>"
  by code_simp

section \<open>Properties of the viewport translator\<close>

lemma floorDiv_floor: "floorDiv a b = \<lfloor>real_of_int a / real_of_int b\<rfloor>"
  by (simp add: floorDiv_def floor_divide_of_int_eq)

text \<open>
  C5 as stated fails: scrolled to pixel 2400 with rows of 24 pixels, the start row
  is 100 although the table has five rows.
\<close>

theorem computeSliceParams_startRow_counterexample:
  "maxRows scrolled_viewport = 5
   \<and> map_option p_startRow (computeSliceParams scrolled_viewport) = Some 100"
  by code_simp

text \<open>
  C5, as amended. For a viewport with a row height and a column width other than
  zero, the start row is \<open>\<lfloor>scrollTop / defaultRowHeight\<rfloor>\<close> raised to 0 when negative;
  it is not bounded by \<open>maxRows\<close>.
\<close>

theorem computeSliceParams_startRow:
  assumes "defaultRowHeight vp \<noteq> 0" and "defaultColumnWidth vp \<noteq> 0"
  shows "\<exists>p. computeSliceParams vp = Some p
           \<and> p_startRow p =
               max 0 \<lfloor>real_of_int (scrollTop vp) / real_of_int (defaultRowHeight vp)\<rfloor>"
  using assms by (simp add: computeSliceParams_def Let_def floorDiv_floor)

theorem computeSliceParams_startRow_witness:
  "defaultRowHeight scrolled_viewport \<noteq> 0 \<and> defaultColumnWidth scrolled_viewport \<noteq> 0
   \<and> (\<exists>p. computeSliceParams scrolled_viewport = Some p \<and> p_startRow p = 100)"
proof -
  have h: "defaultRowHeight scrolled_viewport \<noteq> 0" "defaultColumnWidth scrolled_viewport \<noteq> 0"
    by (simp_all add: scrolled_viewport_def)
  have "\<lfloor>real_of_int (scrollTop scrolled_viewport)
          / real_of_int (defaultRowHeight scrolled_viewport)\<rfloor> = 100"
    by (simp add: scrolled_viewport_def)
  then show ?thesis
    using computeSliceParams_startRow [OF h] h by auto
qed

section \<open>Properties of the index builder\<close>

text \<open>The index does not depend on how the stream cuts the file into chunks.\<close>

lemma scanChunk_currentOffset [simp]:
  "sc_currentOffset (scanChunk g bs i st) = sc_currentOffset st"
  by (induction bs arbitrary: i st) (simp_all add: Let_def)

lemma scanChunk_append:
  "scanChunk g (xs @ ys) i st = scanChunk g ys (i + length xs) (scanChunk g xs i st)"
  by (induction xs arbitrary: i st) simp_all

lemma scanChunk_shift:
  "sc_currentOffset st = c \<Longrightarrow>
   scanChunk g bs i (st\<lparr>sc_currentOffset := c + k\<rparr>)
     = (scanChunk g bs (i + k) st)\<lparr>sc_currentOffset := c + k\<rparr>"
proof (induction bs arbitrary: i st)
  case Nil
  show ?case by simp
next
  case (Cons b bs)
  obtain t r os where st:
    "st = \<lparr>sc_totalRows = t, sc_currentOffset = c, sc_rowsSinceLastIndex = r, sc_offsets = os\<rparr>"
    using Cons.prems by (cases st) auto
  show ?case
  proof (cases "b = NEWLINE")
    case False
    then show ?thesis using Cons.IH [OF Cons.prems, of "i + 1"] by simp
  next
    case True
    show ?thesis
    proof (cases "g \<le> r + 1")
      case False
      let ?st1 = "\<lparr>sc_totalRows = t + 1, sc_currentOffset = c,
                   sc_rowsSinceLastIndex = r + 1, sc_offsets = os\<rparr>"
      have "sc_currentOffset ?st1 = c" by simp
      from Cons.IH [OF this, of "i + 1"] True False show ?thesis
        by (simp add: st Let_def)
    next
      case g: True
      let ?st2 = "\<lparr>sc_totalRows = t + 1, sc_currentOffset = c,
                   sc_rowsSinceLastIndex = 0, sc_offsets = os @ [c + (i + k) + 1]\<rparr>"
      have "sc_currentOffset ?st2 = c" by simp
      from Cons.IH [OF this, of "i + 1"] True g show ?thesis
        by (simp add: st Let_def add.assoc add.commute add.left_commute)
    qed
  qed
qed

lemma readLoop_concat:
  "readLoop g chunks st
     = (scanChunk g (concat chunks) 0 st)
         \<lparr>sc_currentOffset := sc_currentOffset st + length (concat chunks)\<rparr>"
proof (induction chunks arbitrary: st)
  case Nil
  show ?case by simp
next
  case (Cons c cs)
  let ?st1 = "scanChunk g c 0 st"
  have "readLoop g (c # cs) st
        = readLoop g cs (?st1\<lparr>sc_currentOffset := sc_currentOffset st + length c\<rparr>)"
    by simp
  also have "\<dots> = (scanChunk g (concat cs) 0 (?st1\<lparr>sc_currentOffset := sc_currentOffset st + length c\<rparr>))
         \<lparr>sc_currentOffset := sc_currentOffset st + length c + length (concat cs)\<rparr>"
    by (simp add: Cons.IH)
  also have "\<dots> = (scanChunk g (concat cs) (length c) ?st1)
         \<lparr>sc_currentOffset := sc_currentOffset st + length c + length (concat cs)\<rparr>"
    using scanChunk_shift [of ?st1 "sc_currentOffset st" g "concat cs" 0 "length c"] by simp
  finally show ?case
    by (simp add: scanChunk_append add.assoc)
qed

lemma buildIndex_chunks:
  "buildIndex config chunks = buildIndex config [concat chunks]"
  by (simp add: buildIndex_def readLoop_concat)

lemma scanChunk_offsets_prefix:
  "\<exists>ys. sc_offsets (scanChunk g bs i st) = sc_offsets st @ ys"
proof (induction bs arbitrary: i st)
  case Nil
  show ?case by simp
next
  case (Cons b bs)
  obtain t c r os where st:
    "st = \<lparr>sc_totalRows = t, sc_currentOffset = c, sc_rowsSinceLastIndex = r, sc_offsets = os\<rparr>"
    by (cases st) auto
  show ?case
  proof (cases "b = NEWLINE \<and> g \<le> r + 1")
    case True
    let ?st2 = "\<lparr>sc_totalRows = t + 1, sc_currentOffset = c,
                 sc_rowsSinceLastIndex = 0, sc_offsets = os @ [c + i + 1]\<rparr>"
    from Cons.IH [of "i + 1" ?st2] obtain ys where
      "sc_offsets (scanChunk g bs (i + 1) ?st2) = sc_offsets ?st2 @ ys" by blast
    with True show ?thesis by (simp add: st Let_def)
  next
    case False
    let ?st1 = "\<lparr>sc_totalRows = (if b = NEWLINE then t + 1 else t), sc_currentOffset = c,
                 sc_rowsSinceLastIndex = (if b = NEWLINE then r + 1 else r), sc_offsets = os\<rparr>"
    from Cons.IH [of "i + 1" ?st1] obtain ys where
      "sc_offsets (scanChunk g bs (i + 1) ?st1) = sc_offsets ?st1 @ ys" by blast
    with False show ?thesis by (auto simp add: st Let_def)
  qed
qed

lemma scanChunk_offsets_sorted:
  assumes "sorted_wrt (<) (sc_offsets st)"
    and "\<forall>x\<in>set (sc_offsets st). x \<le> sc_currentOffset st + i"
  shows "sorted_wrt (<) (sc_offsets (scanChunk g bs i st))
         \<and> (\<forall>x\<in>set (sc_offsets (scanChunk g bs i st)). x \<le> sc_currentOffset st + i + length bs)"
  using assms
proof (induction bs arbitrary: i st)
  case Nil
  then show ?case by simp
next
  case (Cons b bs)
  obtain t c r os where st:
    "st = \<lparr>sc_totalRows = t, sc_currentOffset = c, sc_rowsSinceLastIndex = r, sc_offsets = os\<rparr>"
    by (cases st) auto
  have os: "sorted_wrt (<) os" "\<forall>x\<in>set os. x \<le> c + i"
    using Cons.prems by (simp_all add: st)
  show ?case
  proof (cases "b = NEWLINE \<and> g \<le> r + 1")
    case True
    let ?st2 = "\<lparr>sc_totalRows = t + 1, sc_currentOffset = c,
                 sc_rowsSinceLastIndex = 0, sc_offsets = os @ [c + i + 1]\<rparr>"
    have s: "sorted_wrt (<) (sc_offsets ?st2)"
      using os by (auto simp: sorted_wrt_append)
    have b: "\<forall>x\<in>set (sc_offsets ?st2). x \<le> sc_currentOffset ?st2 + (i + 1)"
      using os by auto
    from Cons.IH [OF s b] True show ?thesis by (simp add: st Let_def)
  next
    case False
    let ?st1 = "\<lparr>sc_totalRows = (if b = NEWLINE then t + 1 else t), sc_currentOffset = c,
                 sc_rowsSinceLastIndex = (if b = NEWLINE then r + 1 else r), sc_offsets = os\<rparr>"
    have s: "sorted_wrt (<) (sc_offsets ?st1)"
      using os by simp
    have b: "\<forall>x\<in>set (sc_offsets ?st1). x \<le> sc_currentOffset ?st1 + (i + 1)"
      using os by auto
    from Cons.IH [OF s b] False show ?thesis by (auto simp add: st Let_def)
  qed
qed

lemma offsets_buildIndex:
  "offsets (buildIndex config chunks)
     = toBigUint64Array (sc_offsets (scanChunk (indexGranularity config) (concat chunks) 0 scan_init))"
  by (simp add: buildIndex_def readLoop_concat)

lemma scan_offsets_sorted:
  "sorted_wrt (<) (sc_offsets (scanChunk g bs 0 scan_init))
   \<and> (\<forall>x\<in>set (sc_offsets (scanChunk g bs 0 scan_init)). x \<le> length bs)"
  using scanChunk_offsets_sorted [of scan_init 0 g bs] by (simp add: scan_init_def)

lemma scan_offsets_hd:
  "\<exists>ys. sc_offsets (scanChunk g bs 0 scan_init) = 0 # ys"
  using scanChunk_offsets_prefix [of g bs 0 scan_init] by (simp add: scan_init_def)

lemma unat_word_of_nat_64: "n < 2 ^ 64 \<Longrightarrow> unat (word_of_nat n :: 64 word) = n"
  by (simp add: unat_of_nat)

lemma length_seed_file: "length seed_file = 69"
  by (simp add: seed_file_def)

text \<open>
  C4 as stated fails: the seed file has 69 bytes and its fifth record starts at
  byte 57, so the offsets are not \<open>[0, 26, 60]\<close>.
\<close>

theorem buildIndex_seed_counterexample:
  "\<not> (totalRows (buildIndex seed_config [seed_file]) = 5
      \<and> offsets (buildIndex seed_config [seed_file]) = [0, 26, 60])"
  by code_simp

text \<open>
  C4, as amended. With granularity 2, the index of the seed file has
  \<open>totalRows = 5\<close> and \<open>offsets = [0, 26, 57]\<close>, however the stream cuts the file
  into chunks.
\<close>

theorem buildIndex_seed:
  assumes "concat chunks = seed_file"
  shows "buildIndex seed_config chunks = \<lparr>totalRows = 5, offsets = [0, 26, 57], granularity = 2\<rparr>"
proof -
  have "buildIndex seed_config [seed_file] = \<lparr>totalRows = 5, offsets = [0, 26, 57], granularity = 2\<rparr>"
    by code_simp
  then show ?thesis
    using assms buildIndex_chunks [of seed_config chunks] by simp
qed

theorem buildIndex_seed_witness:
  "concat [take 20 seed_file, drop 20 seed_file] = seed_file
   \<and> buildIndex seed_config [take 20 seed_file, drop 20 seed_file]
       = \<lparr>totalRows = 5, offsets = [0, 26, 57], granularity = 2\<rparr>"
proof -
  have h: "concat [take 20 seed_file, drop 20 seed_file] = seed_file" by simp
  show ?thesis using buildIndex_seed [OF h] h by simp
qed

text \<open>
  C3 as stated fails: when the file ends with the line terminator that completes a
  group of \<open>G\<close> rows, the last offset equals the file size.
\<close>

theorem buildIndex_offsets_bound_counterexample:
  "\<not> (\<forall>k. k + 1 < length (offsets (buildIndex one_record_config [one_record_file])) \<longrightarrow>
         unat (offsets (buildIndex one_record_config [one_record_file]) ! k)
           < unat (offsets (buildIndex one_record_config [one_record_file]) ! (k + 1))
         \<and> unat (offsets (buildIndex one_record_config [one_record_file]) ! (k + 1))
             < length (concat [one_record_file]))"
proof
  assume a: "\<forall>k. k + 1 < length (offsets (buildIndex one_record_config [one_record_file])) \<longrightarrow>
         unat (offsets (buildIndex one_record_config [one_record_file]) ! k)
           < unat (offsets (buildIndex one_record_config [one_record_file]) ! (k + 1))
         \<and> unat (offsets (buildIndex one_record_config [one_record_file]) ! (k + 1))
             < length (concat [one_record_file])"
  have v: "offsets (buildIndex one_record_config [one_record_file]) = [0, 4]" by code_simp
  have l: "length one_record_file = 4" by (simp add: one_record_file_def)
  from a [rule_format, of 0] show False by (simp add: v l)
qed

text \<open>
  C3, as amended. For every input file of fewer than \<open>2^64\<close> bytes, in whatever
  chunks it is read, the offsets array starts with 0, is strictly increasing, and
  every entry is at most the file size: \<open>offsets[k] < offsets[k+1] \<le> fileSize\<close>.
\<close>

theorem buildIndex_offsets_increasing:
  assumes "length (concat chunks) < 2 ^ 64"
  shows "offsets (buildIndex config chunks) \<noteq> []
     \<and> offsets (buildIndex config chunks) ! 0 = 0
     \<and> (\<forall>k. k + 1 < length (offsets (buildIndex config chunks)) \<longrightarrow>
           unat (offsets (buildIndex config chunks) ! k)
             < unat (offsets (buildIndex config chunks) ! (k + 1))
           \<and> unat (offsets (buildIndex config chunks) ! (k + 1)) \<le> length (concat chunks))"
proof -
  let ?os = "sc_offsets (scanChunk (indexGranularity config) (concat chunks) 0 scan_init)"
  have off: "offsets (buildIndex config chunks) = map word_of_nat ?os"
    by (simp add: offsets_buildIndex toBigUint64Array_def)
  have srt: "sorted_wrt (<) ?os" and bnd: "\<forall>x\<in>set ?os. x \<le> length (concat chunks)"
    using scan_offsets_sorted by blast+
  obtain ys where hd: "?os = 0 # ys" using scan_offsets_hd by blast
  have un: "unat (word_of_nat (?os ! k) :: 64 word) = ?os ! k" if "k < length ?os" for k
  proof -
    have "?os ! k \<le> length (concat chunks)" using bnd that by simp
    then show ?thesis using assms by (simp add: unat_word_of_nat_64)
  qed
  have "unat (offsets (buildIndex config chunks) ! k)
             < unat (offsets (buildIndex config chunks) ! (k + 1))
           \<and> unat (offsets (buildIndex config chunks) ! (k + 1)) \<le> length (concat chunks)"
    if k: "k + 1 < length (offsets (buildIndex config chunks))" for k
  proof -
    have k': "k + 1 < length ?os" using k by (simp add: off)
    then have "?os ! k < ?os ! (k + 1)"
      using srt by (simp add: sorted_wrt_iff_nth_less)
    moreover have "?os ! (k + 1) \<le> length (concat chunks)" using bnd k' by simp
    ultimately show ?thesis using k' by (simp add: off un)
  qed
  moreover have "offsets (buildIndex config chunks) \<noteq> []"
    and "offsets (buildIndex config chunks) ! 0 = 0"
    by (simp_all add: off hd)
  ultimately show ?thesis by blast
qed

theorem buildIndex_offsets_increasing_witness:
  "length (concat [seed_file]) < 2 ^ 64
   \<and> unat (offsets (buildIndex seed_config [seed_file]) ! 0)
       < unat (offsets (buildIndex seed_config [seed_file]) ! 1)
   \<and> unat (offsets (buildIndex seed_config [seed_file]) ! 1) \<le> length (concat [seed_file])
   \<and> offsets (buildIndex seed_config [seed_file]) = [0, 26, 57]"
proof -
  have h: "length (concat [seed_file]) < 2 ^ 64" by (simp add: length_seed_file)
  have v: "offsets (buildIndex seed_config [seed_file]) = [0, 26, 57]" by code_simp
  have "(0::nat) + 1 < length (offsets (buildIndex seed_config [seed_file]))" by (simp add: v)
  with buildIndex_offsets_increasing [OF h, of seed_config] h v show ?thesis
    by (metis One_nat_def add.left_neutral)
qed

section \<open>Properties of the index codec\<close>

lemma length_le_bytes [simp]: "length (le_bytes k n) = k"
  by (induction k arbitrary: n) simp_all

lemma from_le_le_bytes: "from_le (le_bytes k n) = n mod 256 ^ k"
proof (induction k arbitrary: n)
  case 0
  show ?case by simp
next
  case (Suc k)
  have "unat (word_of_nat (n mod 256) :: u8) = n mod 256"
    by (simp add: unat_of_nat)
  then have "from_le (le_bytes (Suc k) n) = n mod 256 + 256 * (n div 256 mod 256 ^ k)"
    by (simp add: Suc.IH)
  also have "\<dots> = n mod (256 * 256 ^ k)"
    by (simp add: mod_mult2_eq)
  finally show ?case by simp
qed

lemma from_le_setBigUint64: "v < 2 ^ 64 \<Longrightarrow> from_le (setBigUint64 v) = v"
  by (simp add: setBigUint64_def from_le_le_bytes)

lemma length_setBigUint64 [simp]: "length (setBigUint64 v) = 8"
  by (simp add: setBigUint64_def)

lemma length_bufferOf [simp]: "length (bufferOf ws) = 8 * length ws"
  by (induction ws) (simp_all add: bufferOf_def)

lemma bufferOf_Cons: "bufferOf (w # ws) = le_bytes 8 (unat w) @ bufferOf ws"
  by (simp add: bufferOf_def)

lemma word_of_le_bytes: "word_of_nat (from_le (le_bytes 8 (unat w))) = (w :: 64 word)"
proof -
  have "unat w < 2 ^ 64" using unsigned_less [of w, where ?'a = nat] by simp
  then have "unat w mod 256 ^ 8 = unat w" by simp
  then show ?thesis by (simp add: from_le_le_bytes)
qed

lemma elementsOf_bufferOf: "elementsOf (bufferOf ws) = ws"
proof (induction ws)
  case Nil
  show ?case by (subst elementsOf.simps) (simp add: bufferOf_def)
next
  case (Cons w ws)
  show ?case
    by (subst elementsOf.simps) (simp add: bufferOf_Cons word_of_le_bytes Cons.IH)
qed

lemma loadIndex_saveIndex:
  assumes "totalRows idx < 2 ^ 64" and "granularity idx < 2 ^ 64"
  shows "loadIndex (Some (saveIndex idx)) = Inr (Some (idx :: FileIndex))"
proof -
  let ?buffer = "saveIndex idx"
  have g0: "getBigUint64 ?buffer 0 = Inr (totalRows idx)"
    using assms by (simp add: getBigUint64_def saveIndex_def from_le_setBigUint64)
  have g8: "getBigUint64 ?buffer 8 = Inr (granularity idx)"
    using assms by (simp add: getBigUint64_def saveIndex_def from_le_setBigUint64)
  have d: "drop 16 ?buffer = bufferOf (offsets idx)"
    by (simp add: saveIndex_def)
  have n: "newBigUint64Array (drop 16 ?buffer) = Inr (offsets idx)"
    by (simp add: d newBigUint64Array_def elementsOf_bufferOf)
  show ?thesis
    by (simp add: loadIndex_def g0 g8 n)
qed

text \<open>
  C6. Saving an index and loading the written bytes back gives the same index: the
  same \<open>totalRows\<close>, \<open>granularity\<close> and \<open>offsets\<close>. The two counts are below \<open>2^64\<close>,
  the range of the header fields; the offsets are 64-bit words by type.
\<close>

theorem saveIndex_loadIndex_roundtrip:
  assumes "totalRows idx < 2 ^ 64" and "granularity idx < 2 ^ 64"
  shows "loadIndex (Some (saveIndex idx)) = Inr (Some (idx :: FileIndex))"
  using assms by (rule loadIndex_saveIndex)

theorem saveIndex_loadIndex_roundtrip_witness:
  "totalRows (buildIndex seed_config [seed_file]) < 2 ^ 64
   \<and> granularity (buildIndex seed_config [seed_file]) < 2 ^ 64
   \<and> loadIndex (Some (saveIndex (buildIndex seed_config [seed_file])))
       = Inr (Some \<lparr>totalRows = 5, offsets = [0, 26, 57], granularity = 2\<rparr>)"
proof -
  have v: "buildIndex seed_config [seed_file]
           = \<lparr>totalRows = 5, offsets = [0, 26, 57], granularity = 2\<rparr>"
    by code_simp
  have h: "totalRows (buildIndex seed_config [seed_file]) < 2 ^ 64"
    "granularity (buildIndex seed_config [seed_file]) < 2 ^ 64"
    by (simp_all add: v)
  show ?thesis
    using saveIndex_loadIndex_roundtrip [OF h] h by (simp add: v)
qed

lemma loadIndex_present: "loadIndex (Some buffer) \<noteq> Inr None"
  by (simp add: loadIndex_def split: sum.splits)

text \<open>
  C8. \<open>loadIndex\<close> returns none exactly when the index file is absent, and it
  raises an error for every file that is present with fewer than 16 bytes or with
  a number of bytes after the 16-byte header that is not a multiple of 8.
\<close>

theorem loadIndex_none_or_error:
  "(loadIndex content = Inr None \<longleftrightarrow> content = None)
   \<and> (\<forall>buffer. content = Some buffer
         \<and> (length buffer < 16 \<or> (length buffer - 16) mod 8 \<noteq> 0)
        \<longrightarrow> loadIndex content = Inl RangeError)"
proof -
  have a: "loadIndex content = Inr None \<longleftrightarrow> content = None"
    using loadIndex_present by (cases content) (simp_all add: loadIndex_def)
  have b: "loadIndex (Some buffer) = Inl RangeError"
    if "length buffer < 16 \<or> (length buffer - 16) mod 8 \<noteq> 0" for buffer
  proof (cases "length buffer < 8")
    case True
    then show ?thesis by (simp add: loadIndex_def getBigUint64_def)
  next
    case False
    show ?thesis
    proof (cases "length buffer < 16")
      case True
      with False show ?thesis by (simp add: loadIndex_def getBigUint64_def)
    next
      case ge: False
      with that have "length (drop 16 buffer) mod 8 \<noteq> 0" by simp
      with ge show ?thesis
        by (simp add: loadIndex_def getBigUint64_def newBigUint64Array_def)
    qed
  qed
  from a b show ?thesis by blast
qed

theorem loadIndex_none_or_error_witness:
  "loadIndex None = Inr None
   \<and> loadIndex (Some [1, 2, 3]) = Inl RangeError
   \<and> loadIndex (Some (replicate 17 0)) = Inl RangeError"
  using loadIndex_none_or_error [of None] loadIndex_none_or_error [of "Some [1, 2, 3]"]
    loadIndex_none_or_error [of "Some (replicate 17 0)"]
  by simp

lemma ceilDiv_ceiling: "ceilDiv a b = \<lceil>real_of_int a / real_of_int b\<rceil>"
proof -
  have "(- a) div b = \<lfloor>real_of_int (- a) / real_of_int b\<rfloor>"
    by (simp only: floor_divide_of_int_eq)
  also have "\<dots> = \<lfloor>- (real_of_int a / real_of_int b)\<rfloor>" by simp
  finally show ?thesis
    by (simp add: ceilDiv_def ceiling_def)
qed

lemma getOrBuildIndex_cached:
  assumes "indexPath config = Some path" and "path \<noteq> []"
    and "loadIndex (files w path) = Inr (Some cached)"
  shows "getOrBuildIndex config w =
           (if \<lfloor>real (fileSize w) / 50\<rfloor> \<le> int (totalRows cached)
               \<and> int (totalRows cached) \<le> \<lceil>real (fileSize w) / 5\<rceil>
            then Inr \<lparr>out_index = cached, out_world = w, rebuilt = False\<rparr>
            else Inr (buildAndSave config w))"
proof -
  have f: "floorDiv (int (fileSize w)) 50 = \<lfloor>real (fileSize w) / 50\<rfloor>"
    using floorDiv_floor [of "int (fileSize w)" 50] by simp
  have c: "ceilDiv (int (fileSize w)) 5 = \<lceil>real (fileSize w) / 5\<rceil>"
    using ceilDiv_ceiling [of "int (fileSize w)" 5] by simp
  show ?thesis
    using assms by (simp add: getOrBuildIndex_def truthyPath_def Let_def f c)
qed

text \<open>
  C7. With an index path configured and a cached index loaded from it,
  \<open>getOrBuildIndex\<close> returns the cached index without rebuilding if and only if
  \<open>\<lfloor>S/50\<rfloor> \<le> totalRows \<le> \<lceil>S/5\<rceil>\<close> for the data-file size \<open>S\<close>; when the condition
  fails it runs the builder, saves the built index at the path and returns it.
\<close>

theorem getOrBuildIndex_freshness:
  assumes "indexPath config = Some path" and "path \<noteq> []"
    and "loadIndex (files w path) = Inr (Some cached)"
  shows "(getOrBuildIndex config w = Inr \<lparr>out_index = cached, out_world = w, rebuilt = False\<rparr>
          \<longleftrightarrow> \<lfloor>real (fileSize w) / 50\<rfloor> \<le> int (totalRows cached)
              \<and> int (totalRows cached) \<le> \<lceil>real (fileSize w) / 5\<rceil>)
       \<and> (\<not> (\<lfloor>real (fileSize w) / 50\<rfloor> \<le> int (totalRows cached)
              \<and> int (totalRows cached) \<le> \<lceil>real (fileSize w) / 5\<rceil>)
          \<longrightarrow> getOrBuildIndex config w =
                Inr \<lparr>out_index = buildIndex config (dataChunks w),
                     out_world = w\<lparr>files := (files w)
                        (path \<mapsto> saveIndex (buildIndex config (dataChunks w)))\<rparr>,
                     rebuilt = True\<rparr>)"
proof -
  have b: "buildAndSave config w =
             \<lparr>out_index = buildIndex config (dataChunks w),
              out_world = w\<lparr>files := (files w)
                 (path \<mapsto> saveIndex (buildIndex config (dataChunks w)))\<rparr>,
              rebuilt = True\<rparr>"
    using assms(1,2) by (simp add: buildAndSave_def truthyPath_def Let_def)
  show ?thesis
    unfolding getOrBuildIndex_cached [OF assms] b by simp
qed

lemma fileSize_world_with: "fileSize (world_with idx) = 69"
  by (simp add: fileSize_def world_with_def length_seed_file)

theorem getOrBuildIndex_freshness_witness:
  "indexPath cache_config = Some ''measurements.idx'' \<and> ''measurements.idx'' \<noteq> []
   \<and> loadIndex (files (world_with seed_index) ''measurements.idx'') = Inr (Some seed_index)
   \<and> loadIndex (files (world_with stale_index) ''measurements.idx'') = Inr (Some stale_index)
   \<and> \<lfloor>real (fileSize (world_with seed_index)) / 50\<rfloor> = 1
   \<and> \<lceil>real (fileSize (world_with seed_index)) / 5\<rceil> = 14
   \<and> getOrBuildIndex cache_config (world_with seed_index)
       = Inr \<lparr>out_index = seed_index, out_world = world_with seed_index, rebuilt = False\<rparr>
   \<and> getOrBuildIndex cache_config (world_with stale_index)
       = Inr \<lparr>out_index = seed_index,
              out_world = (world_with stale_index)
                \<lparr>files := (files (world_with stale_index))
                   (''measurements.idx'' \<mapsto> saveIndex seed_index)\<rparr>,
              rebuilt = True\<rparr>"
proof -
  have p: "indexPath cache_config = Some ''measurements.idx''" by (simp add: cache_config_def)
  have n: "''measurements.idx'' \<noteq> []" by simp
  have l: "loadIndex (files (world_with seed_index) ''measurements.idx'') = Inr (Some seed_index)"
    using loadIndex_saveIndex [of seed_index] by (simp add: world_with_def seed_index_def)
  have l': "loadIndex (files (world_with stale_index) ''measurements.idx'')
            = Inr (Some stale_index)"
    using loadIndex_saveIndex [of stale_index] by (simp add: world_with_def stale_index_def)
  have f: "\<lfloor>real (fileSize (world_with idx)) / 50\<rfloor> = 1"
    and c: "\<lceil>real (fileSize (world_with idx)) / 5\<rceil> = 14" for idx
    by (simp_all add: fileSize_world_with)
  have t: "int (totalRows seed_index) = 5" "int (totalRows stale_index) = 100"
    by (simp_all add: seed_index_def stale_index_def)
  have b: "buildIndex cache_config (dataChunks (world_with stale_index)) = seed_index"
  proof -
    have "buildIndex cache_config [seed_file] = seed_index" by code_simp
    then show ?thesis by (simp add: world_with_def)
  qed
  have fresh: "getOrBuildIndex cache_config (world_with seed_index)
       = Inr \<lparr>out_index = seed_index, out_world = world_with seed_index, rebuilt = False\<rparr>"
    using getOrBuildIndex_freshness [OF p n l] by (simp add: f c t)
  have stale: "getOrBuildIndex cache_config (world_with stale_index)
       = Inr \<lparr>out_index = seed_index,
              out_world = (world_with stale_index)
                \<lparr>files := (files (world_with stale_index))
                   (''measurements.idx'' \<mapsto> saveIndex seed_index)\<rparr>,
              rebuilt = True\<rparr>"
    using getOrBuildIndex_freshness [OF p n l'] by (simp add: f c t b)
  show ?thesis
    using p l l' f c fresh stale by simp
qed

section \<open>Properties of the slicer\<close>

lemma length_padCells:
  "int (length (padCells cells n)) = max (int (length cells)) n"
proof (induction cells n rule: padCells.induct)
  case (1 cells n)
  show ?case
  proof (cases "int (length cells) < n")
    case True
    with "1.IH" show ?thesis by (subst padCells.simps) simp
  next
    case False
    then show ?thesis by (subst padCells.simps) simp
  qed
qed

lemma length_js_slice_le:
  assumes "0 \<le> start" and "0 \<le> n"
  shows "int (length (js_slice xs start (start + n))) \<le> n"
  using assms by (auto simp add: js_slice_def Let_def min_def max_def)

lemma length_parseLine:
  assumes "0 \<le> sc" and "0 \<le> cc"
  shows "int (length (parseLine data pos lineEnd sc cc)) = cc"
  using length_js_slice_le [OF assms, of "splitLine (js_slice data (int pos) (int lineEnd))"]
  by (simp add: parseLine_def Let_def length_padCells)

lemma parseLoop_stop:
  "\<not> (pos < length data \<and> int (length rows) < maxRows0) \<Longrightarrow>
   parseLoop data maxRows0 sc cc pos rows = rows"
  by (subst parseLoop.simps) auto

lemma parseLoop_step:
  "pos < length data \<Longrightarrow> int (length rows) < maxRows0 \<Longrightarrow>
   parseLoop data maxRows0 sc cc pos rows =
     parseLoop data maxRows0 sc cc (findLineEnd data pos + 1)
       (if findLineEnd data pos = pos then rows
        else rows @ [parseLine data pos (findLineEnd data pos) sc cc])"
  by (subst parseLoop.simps) (simp add: Let_def)

lemma parseLoop_row_lengths:
  assumes "0 \<le> sc" and "0 \<le> cc" and "\<forall>row\<in>set rows. int (length row) = cc"
  shows "\<forall>row\<in>set (parseLoop data maxRows0 sc cc pos rows). int (length row) = cc"
  using assms
proof (induction data maxRows0 sc cc pos rows rule: parseLoop.induct)
  case (1 data maxRows0 sc cc pos rows)
  show ?case
  proof (cases "pos < length data \<and> int (length rows) < maxRows0")
    case False
    then show ?thesis using "1.prems" by (simp add: parseLoop_stop)
  next
    case True
    let ?e = "findLineEnd data pos"
    let ?rows = "if ?e = pos then rows else rows @ [parseLine data pos ?e sc cc]"
    have "\<forall>row\<in>set ?rows. int (length row) = cc"
      using "1.prems" by (simp add: length_parseLine)
    from "1.IH" [OF True refl "1.prems"(1,2) this] True show ?thesis
      by (simp add: parseLoop_step)
  qed
qed

lemma parseRows_row_lengths:
  assumes "0 \<le> sc" and "0 \<le> cc"
  shows "\<forall>row\<in>set (parseRows data skipRows maxRows0 sc cc). int (length row) = cc"
  unfolding parseRows_def using parseLoop_row_lengths [OF assms, of "[]"] by simp

lemma response_consistent:
  assumes "\<forall>row\<in>set rows. int (length row) = cc"
  shows "int (length (cellsByRow (response sr sc cc rows))) = rowCount (response sr sc cc rows)
       \<and> (\<forall>row\<in>set (cellsByRow (response sr sc cc rows)).
             int (length row) = colCount (response sr sc cc rows))"
  using assms by (simp add: response_def)

lemma getSlice_cases:
  assumes "getSlice s a n c m = Some r"
    and "Q (response (max 0 (min a (int (totalRows (sl_index s)) - 1)))
                  (max 0 (min c (TOTAL_COLS - 1)))
                  (min m (TOTAL_COLS - max 0 (min c (TOTAL_COLS - 1)))) [])"
    and "\<And>data skipRows maxRows0.
           Q (response (max 0 (min a (int (totalRows (sl_index s)) - 1)))
                  (max 0 (min c (TOTAL_COLS - 1)))
                  (min m (TOTAL_COLS - max 0 (min c (TOTAL_COLS - 1))))
                  (parseRows data skipRows maxRows0 (max 0 (min c (TOTAL_COLS - 1)))
                     (min m (TOTAL_COLS - max 0 (min c (TOTAL_COLS - 1))))))"
  shows "Q r"
proof -
  have "getSlice s a n c m = None
      \<or> getSlice s a n c m
          = Some (response (max 0 (min a (int (totalRows (sl_index s)) - 1)))
                  (max 0 (min c (TOTAL_COLS - 1)))
                  (min m (TOTAL_COLS - max 0 (min c (TOTAL_COLS - 1)))) [])
      \<or> (\<exists>data skipRows maxRows0. getSlice s a n c m
          = Some (response (max 0 (min a (int (totalRows (sl_index s)) - 1)))
                  (max 0 (min c (TOTAL_COLS - 1)))
                  (min m (TOTAL_COLS - max 0 (min c (TOTAL_COLS - 1))))
                  (parseRows data skipRows maxRows0 (max 0 (min c (TOTAL_COLS - 1)))
                     (min m (TOTAL_COLS - max 0 (min c (TOTAL_COLS - 1)))))))"
    unfolding getSlice_def Let_def
    by (simp only: split: if_split) blast
  with assms show ?thesis by auto
qed

lemma file_of_Nil [simp]: "file_of [] = []"
  by (simp add: file_of_def)

lemma file_of_Cons [simp]: "file_of (r # rs) = r @ NEWLINE # file_of rs"
  by (simp add: file_of_def)

lemma file_of_append [simp]: "file_of (xs @ ys) = file_of xs @ file_of ys"
  by (simp add: file_of_def)

lemma file_of_take_Suc:
  "m < length recs \<Longrightarrow> file_of (take (Suc m) recs) = file_of (take m recs) @ recs ! m @ [NEWLINE]"
  by (simp add: take_Suc_conv_app_nth)

lemma file_of_split: "file_of recs = file_of (take m recs) @ file_of (drop m recs)"
  using file_of_append [of "take m recs" "drop m recs"] by simp

lemma length_file_of_le:
  "\<forall>r\<in>set rs. length r < 30 \<Longrightarrow> length (file_of rs) \<le> 30 * length rs"
  by (induction rs) auto

lemma scanChunk_no_newline:
  "NEWLINE \<notin> set r \<Longrightarrow> scanChunk g (r @ bs) i st = scanChunk g bs (i + length r) st"
  by (induction r arbitrary: i) auto

text \<open>The state of the scan after the first \<open>m\<close> records of \<open>recs\<close>.\<close>

lemma scanChunk_records:
  assumes "0 < g" and "\<forall>r\<in>set recs. NEWLINE \<notin> set r" and "m \<le> length recs"
  shows "scanChunk g (file_of (take m recs)) 0 scan_init =
           \<lparr>sc_totalRows = m, sc_currentOffset = 0, sc_rowsSinceLastIndex = m mod g,
            sc_offsets = map (\<lambda>k. length (file_of (take (k * g) recs))) [0..<m div g + 1]\<rparr>"
  using assms(3)
proof (induction m)
  case 0
  show ?case using assms(1) by (simp add: scan_init_def)
next
  case (Suc m)
  let ?f = "\<lambda>k. length (file_of (take (k * g) recs))"
  let ?st = "\<lparr>sc_totalRows = m, sc_currentOffset = 0, sc_rowsSinceLastIndex = m mod g,
              sc_offsets = map ?f [0..<m div g + 1]\<rparr>"
  have m: "m < length recs" using Suc.prems by simp
  then have nl: "NEWLINE \<notin> set (recs ! m)" using assms(2) by simp
  have "scanChunk g (file_of (take (Suc m) recs)) 0 scan_init
        = scanChunk g (recs ! m @ [NEWLINE]) (length (file_of (take m recs))) ?st"
    using Suc.IH m by (simp add: file_of_take_Suc scanChunk_append)
  also have "\<dots> = scanChunk g [NEWLINE] (length (file_of (take m recs)) + length (recs ! m)) ?st"
    using nl by (rule scanChunk_no_newline)
  finally have step: "scanChunk g (file_of (take (Suc m) recs)) 0 scan_init
        = scanChunk g [NEWLINE] (length (file_of (take m recs)) + length (recs ! m)) ?st" .
  have len: "length (file_of (take (Suc m) recs))
             = length (file_of (take m recs)) + length (recs ! m) + 1"
    using m by (simp add: file_of_take_Suc)
  show ?case
  proof (cases "g \<le> m mod g + 1")
    case True
    have "m mod g < g" using assms(1) by simp
    with True have eq: "Suc (m mod g) = g" by simp
    then have md: "Suc m mod g = 0" by (simp add: mod_Suc)
    then have dv: "Suc m div g = Suc (m div g)" by (simp add: div_Suc)
    have "Suc m = Suc m div g * g" using md by (metis add.right_neutral div_mult_mod_eq)
    then have sm: "Suc (m div g) * g = Suc m" using dv by simp
    have "?f (Suc (m div g)) = length (file_of (take (Suc m) recs))"
      by (simp only: sm)
    then have "map ?f [0..<Suc m div g + 1]
          = map ?f [0..<m div g + 1] @ [length (file_of (take (Suc m) recs))]"
      by (simp add: dv)
    with True md show ?thesis
      by (simp add: step len Let_def)
  next
    case False
    then have lt: "Suc (m mod g) < g" by simp
    then have md: "Suc m mod g = Suc (m mod g)" by (simp add: mod_Suc)
    then have dv: "Suc m div g = m div g" by (simp add: div_Suc)
    from False md dv show ?thesis
      by (simp add: step Let_def)
  qed
qed

lemma buildIndex_records:
  assumes "0 < indexGranularity config" and "\<forall>r\<in>set recs. NEWLINE \<notin> set r"
    and "NEWLINE \<notin> set rest" and "concat chunks = file_of recs @ rest"
  shows "buildIndex config chunks =
           \<lparr>totalRows = length recs,
            offsets = map (\<lambda>k. word_of_nat (length (file_of (take (k * indexGranularity config) recs))))
                        [0..<length recs div indexGranularity config + 1],
            granularity = indexGranularity config\<rparr>"
proof -
  let ?g = "indexGranularity config"
  have "scanChunk ?g (concat chunks) 0 scan_init
        = scanChunk ?g rest (0 + length (file_of recs)) (scanChunk ?g (file_of recs) 0 scan_init)"
    by (simp only: assms(4) scanChunk_append)
  also have "\<dots> = scanChunk ?g [] (0 + length (file_of recs) + length rest)
                     (scanChunk ?g (file_of recs) 0 scan_init)"
    using scanChunk_no_newline [OF assms(3), of ?g "[]"] by simp
  finally have "scanChunk ?g (concat chunks) 0 scan_init = scanChunk ?g (file_of recs) 0 scan_init"
    by simp
  moreover have "scanChunk ?g (file_of recs) 0 scan_init =
           \<lparr>sc_totalRows = length recs, sc_currentOffset = 0,
            sc_rowsSinceLastIndex = length recs mod ?g,
            sc_offsets = map (\<lambda>k. length (file_of (take (k * ?g) recs)))
                           [0..<length recs div ?g + 1]\<rparr>"
    using scanChunk_records [OF assms(1,2), of "length recs"] by simp
  ultimately show ?thesis
    by (simp add: buildIndex_def readLoop_concat toBigUint64Array_def comp_def)
qed

lemma skipLoop_stop:
  "\<not> (pos < length data \<and> j < k) \<Longrightarrow> skipLoop data k pos j = pos"
  by (subst skipLoop.simps) auto

lemma skipLoop_step:
  "pos < length data \<Longrightarrow> j < k \<Longrightarrow>
   skipLoop data k pos j
     = skipLoop data k (pos + 1) (if data ! pos = NEWLINE then j + 1 else j)"
  by (subst skipLoop.simps) simp

lemma skipLoop_block:
  assumes "NEWLINE \<notin> set r" and "j < k"
  shows "skipLoop (A @ r @ rest0) k (length A) j = skipLoop (A @ r @ rest0) k (length A + length r) j"
  using assms(1)
proof (induction r arbitrary: A)
  case Nil
  show ?case by simp
next
  case (Cons x r)
  have x: "x \<noteq> NEWLINE" and r: "NEWLINE \<notin> set r" using Cons.prems by auto
  have "skipLoop (A @ (x # r) @ rest0) k (length A) j
        = skipLoop (A @ (x # r) @ rest0) k (length A + 1) j"
    using x assms(2) by (simp add: skipLoop_step nth_append)
  also have "\<dots> = skipLoop ((A @ [x]) @ r @ rest0) k (length (A @ [x])) j"
    by simp
  also have "\<dots> = skipLoop ((A @ [x]) @ r @ rest0) k (length (A @ [x]) + length r) j"
    using r by (rule Cons.IH)
  finally show ?case by simp
qed

lemma skipLoop_newline:
  assumes "j < k"
  shows "skipLoop (A @ NEWLINE # rest0) k (length A) j
         = skipLoop (A @ NEWLINE # rest0) k (length A + 1) (j + 1)"
  using assms by (simp add: skipLoop_step nth_append)

lemma skipLoop_records:
  assumes "\<forall>r\<in>set rs. NEWLINE \<notin> set r" and "j + int (length rs) \<le> k"
  shows "skipLoop (A @ file_of rs @ rest0) k (length A) j
         = skipLoop (A @ file_of rs @ rest0) k (length A + length (file_of rs)) (j + int (length rs))"
  using assms
proof (induction rs arbitrary: A j)
  case Nil
  show ?case by simp
next
  case (Cons r rs)
  have r: "NEWLINE \<notin> set r" and rs: "\<forall>r\<in>set rs. NEWLINE \<notin> set r"
    using Cons.prems(1) by auto
  have j: "j < k" and j1: "(j + 1) + int (length rs) \<le> k" using Cons.prems(2) by auto
  let ?data = "A @ file_of (r # rs) @ rest0"
  have d1: "?data = A @ r @ (NEWLINE # file_of rs @ rest0)" by simp
  have d2: "?data = (A @ r) @ NEWLINE # (file_of rs @ rest0)" by simp
  have d3: "?data = (A @ r @ [NEWLINE]) @ file_of rs @ rest0" by simp
  have "skipLoop ?data k (length A) j = skipLoop ?data k (length A + length r) j"
    unfolding d1 using r j by (rule skipLoop_block)
  also have "\<dots> = skipLoop ?data k (length (A @ r) + 1) (j + 1)"
    unfolding d2 using skipLoop_newline [OF j, of "A @ r"] by simp
  also have "\<dots> = skipLoop ?data k (length (A @ r @ [NEWLINE])) (j + 1)"
    by simp
  also have "\<dots> = skipLoop ?data k (length (A @ r @ [NEWLINE]) + length (file_of rs))
                      (j + 1 + int (length rs))"
    unfolding d3 using rs j1 by (rule Cons.IH)
  finally show ?case by (simp add: add.assoc)
qed

lemma skipLoop_file_of:
  assumes "\<forall>r\<in>set rs. NEWLINE \<notin> set r"
  shows "skipLoop (file_of rs @ rest0) (int (length rs)) 0 0 = length (file_of rs)"
proof -
  have "skipLoop ([] @ file_of rs @ rest0) (int (length rs)) (length ([] :: char list)) 0
        = skipLoop ([] @ file_of rs @ rest0) (int (length rs))
            (length ([] :: char list) + length (file_of rs)) (0 + int (length rs))"
    using assms by (intro skipLoop_records) simp_all
  then show ?thesis by (simp add: skipLoop_stop)
qed

lemma findLineEnd_stop:
  "\<not> (pos < length data \<and> data ! pos \<noteq> NEWLINE) \<Longrightarrow> findLineEnd data pos = pos"
  by (subst findLineEnd.simps) auto

lemma findLineEnd_step:
  "pos < length data \<Longrightarrow> data ! pos \<noteq> NEWLINE \<Longrightarrow>
   findLineEnd data pos = findLineEnd data (pos + 1)"
  by (subst findLineEnd.simps) simp

lemma findLineEnd_ge: "pos \<le> findLineEnd data pos"
proof (induction data pos rule: findLineEnd.induct)
  case (1 data lineEnd)
  show ?case
  proof (cases "lineEnd < length data \<and> data ! lineEnd \<noteq> NEWLINE")
    case True
    with "1.IH" show ?thesis by (simp add: findLineEnd_step)
  next
    case False
    then show ?thesis by (simp add: findLineEnd_stop)
  qed
qed

lemma findLineEnd_block:
  assumes "NEWLINE \<notin> set r"
  shows "findLineEnd (A @ r @ rest0) (length A) = findLineEnd (A @ r @ rest0) (length A + length r)"
  using assms
proof (induction r arbitrary: A)
  case Nil
  show ?case by simp
next
  case (Cons x r)
  have x: "x \<noteq> NEWLINE" and r: "NEWLINE \<notin> set r" using Cons.prems by auto
  have "findLineEnd (A @ (x # r) @ rest0) (length A)
        = findLineEnd (A @ (x # r) @ rest0) (length A + 1)"
    using x by (simp add: findLineEnd_step nth_append)
  also have "\<dots> = findLineEnd ((A @ [x]) @ r @ rest0) (length (A @ [x]))"
    by simp
  also have "\<dots> = findLineEnd ((A @ [x]) @ r @ rest0) (length (A @ [x]) + length r)"
    using r by (rule Cons.IH)
  finally show ?case by simp
qed

lemma findLineEnd_record:
  assumes "NEWLINE \<notin> set r"
  shows "findLineEnd (A @ r @ NEWLINE # rest0) (length A) = length A + length r"
proof -
  have "findLineEnd (A @ r @ NEWLINE # rest0) (length A)
        = findLineEnd (A @ r @ NEWLINE # rest0) (length A + length r)"
    using assms by (rule findLineEnd_block)
  also have "\<dots> = length A + length r"
    by (rule findLineEnd_stop) (simp add: nth_append)
  finally show ?thesis .
qed

lemma findLineEnd_partial:
  assumes "tl0 \<noteq> []" and "hd tl0 \<noteq> NEWLINE"
  shows "length A < findLineEnd (A @ tl0) (length A)"
proof -
  have "(A @ tl0) ! length A = hd tl0" using assms(1) by (simp add: nth_append hd_conv_nth)
  then have "findLineEnd (A @ tl0) (length A) = findLineEnd (A @ tl0) (length A + 1)"
    using assms by (simp add: findLineEnd_step)
  then show ?thesis using findLineEnd_ge [of "length A + 1" "A @ tl0"] by simp
qed

text \<open>
  The second loop emits one row for every record that lies whole in the chunk, and
  one rest0 for the piece of a record the chunk ends with.
\<close>

lemma parseLoop_count:
  assumes "\<forall>r\<in>set rs. r \<noteq> [] \<and> NEWLINE \<notin> set r"
    and "tl0 \<noteq> []" and "hd tl0 \<noteq> NEWLINE"
    and "int (length rows) + int (length rs) + 1 = maxRows0"
  shows "int (length (parseLoop (A @ file_of rs @ tl0) maxRows0 sc cc (length A) rows)) = maxRows0"
  using assms(1,4)
proof (induction rs arbitrary: A rows)
  case Nil
  let ?data = "A @ tl0"
  let ?e = "findLineEnd ?data (length A)"
  have e: "?e \<noteq> length A" using findLineEnd_partial [OF assms(2,3), of A] by simp
  have pos: "length A < length ?data" using assms(2) by simp
  have lt: "int (length rows) < maxRows0" using Nil.prems(2) by simp
  have "parseLoop ?data maxRows0 sc cc (length A) rows
        = parseLoop ?data maxRows0 sc cc (?e + 1) (rows @ [parseLine ?data (length A) ?e sc cc])"
    unfolding parseLoop_step [OF pos lt] using e by simp
  also have "\<dots> = rows @ [parseLine ?data (length A) ?e sc cc]"
    using Nil.prems(2) by (intro parseLoop_stop) simp
  finally show ?case using Nil.prems(2) by simp
next
  case (Cons r rs)
  have r: "r \<noteq> []" "NEWLINE \<notin> set r"
    and rs: "\<forall>r\<in>set rs. r \<noteq> [] \<and> NEWLINE \<notin> set r"
    using Cons.prems(1) by auto
  let ?data = "A @ r @ NEWLINE # file_of rs @ tl0"
  have d3: "?data = (A @ r @ [NEWLINE]) @ file_of rs @ tl0" by simp
  have e: "findLineEnd ?data (length A) = length A + length r"
    using r(2) by (rule findLineEnd_record)
  have pos: "length A < length ?data" by simp
  have lt: "int (length rows) < maxRows0" using Cons.prems(2) by simp
  let ?rows = "rows @ [parseLine ?data (length A) (length A + length r) sc cc]"
  have "parseLoop ?data maxRows0 sc cc (length A) rows
        = parseLoop ?data maxRows0 sc cc (length A + length r + 1) ?rows"
    unfolding parseLoop_step [OF pos lt] e using r(1) by simp
  also have "\<dots> = parseLoop ((A @ r @ [NEWLINE]) @ file_of rs @ tl0) maxRows0 sc cc
                      (length (A @ r @ [NEWLINE])) ?rows"
    by simp
  finally have "parseLoop ?data maxRows0 sc cc (length A) rows
        = parseLoop ((A @ r @ [NEWLINE]) @ file_of rs @ tl0) maxRows0 sc cc
                      (length (A @ r @ [NEWLINE])) ?rows" .
  moreover have "int (length (parseLoop ((A @ r @ [NEWLINE]) @ file_of rs @ tl0) maxRows0 sc cc
                      (length (A @ r @ [NEWLINE])) ?rows)) = maxRows0"
    using rs Cons.prems(2) by (intro Cons.IH) simp_all
  ultimately show ?case by simp
qed

lemma parseRows_count:
  assumes "\<forall>r\<in>set rs. r \<noteq> [] \<and> NEWLINE \<notin> set r"
    and "tl0 \<noteq> []" and "hd tl0 \<noteq> NEWLINE"
    and "s + n = length rs + 1" and "0 < n"
  shows "int (length (parseRows (file_of rs @ tl0) (int s) (int n) sc cc)) = int n"
proof -
  have s: "s \<le> length rs" using assms(4,5) by simp
  let ?data = "file_of rs @ tl0"
  have d: "?data = file_of (take s rs) @ file_of (drop s rs) @ tl0"
    using file_of_split [of rs s] by simp
  have nl: "\<forall>r\<in>set (take s rs). NEWLINE \<notin> set r"
    using assms(1) by (meson in_set_takeD)
  have "skipLoop (file_of (take s rs) @ (file_of (drop s rs) @ tl0)) (int (length (take s rs))) 0 0
        = length (file_of (take s rs))"
    using nl by (rule skipLoop_file_of)
  then have sk: "skipLoop ?data (int s) 0 0 = length (file_of (take s rs))"
    using s d by simp
  have dr: "\<forall>r\<in>set (drop s rs). r \<noteq> [] \<and> NEWLINE \<notin> set r"
    using assms(1) by (meson in_set_dropD)
  have cnt: "int (length ([] :: string list list)) + int (length (drop s rs)) + 1 = int n"
    using assms(4) s by simp
  have "int (length (parseLoop (file_of (take s rs) @ file_of (drop s rs) @ tl0) (int n) sc cc
                       (length (file_of (take s rs))) [])) = int n"
    using dr assms(2,3) cnt by (rule parseLoop_count)
  then show ?thesis
    unfolding parseRows_def sk using d by simp
qed

lemma js_slice_take_drop:
  assumes "0 \<le> a" and "0 \<le> l"
  shows "js_slice xs a (a + l) = take (nat l) (drop (nat a) xs)"
proof (cases "a \<le> int (length xs)")
  case True
  then have "min (a + l) (int (length xs)) - a = min l (int (length xs) - a)" by simp
  moreover have "take (nat (min l (int (length xs) - a))) (drop (nat a) xs)
                 = take (nat l) (drop (nat a) xs)"
    using assms True by (simp add: min_def nat_le_iff)
  ultimately show ?thesis using assms True
    by (simp add: js_slice_def Let_def min_absorb1 max_absorb1)
next
  case False
  then show ?thesis using assms by (simp add: js_slice_def Let_def min_def)
qed

text \<open>
  The first read of \<open>getSlice\<close> is the answer when it parses to the requested number
  of rows.
\<close>

lemma getSlice_first_read:
  fixes s :: Slicer and a n c m tot gran sc cc off skip btr :: int
  defines "tot \<equiv> int (totalRows (sl_index s))"
    and "gran \<equiv> int (granularity (sl_index s))"
    and "sc \<equiv> max 0 (min c (TOTAL_COLS - 1))"
  defines "cc \<equiv> min m (TOTAL_COLS - sc)"
    and "off \<equiv> int (unat (offsets (sl_index s) ! nat (a div gran)))"
    and "skip \<equiv> a - a div gran * gran"
  defines "btr \<equiv> min (max ((skip + n) * 30) READ_BUFFER_SIZE) (sl_fileSize s - off)"
  assumes a: "0 \<le> a" and n: "0 < n" and an: "a + n \<le> tot"
    and g: "gran \<noteq> 0"
    and k: "nat (a div gran) < length (offsets (sl_index s))"
    and len: "int (length (parseRows (readBytes s off btr) skip n sc cc)) = n"
  shows "getSlice s a n c m = Some (response a sc cc (parseRows (readBytes s off btr) skip n sc cc))"
proof -
  have sr: "max 0 (min a (tot - 1)) = a" using a n an by simp
  have rc: "min n (tot - a) = n" using an by simp
  have c1: "(n \<le> 0) = False" using n by simp
  have c2: "(gran = 0) = False" using g by simp
  have c3: "(length (offsets (sl_index s)) \<le> nat (a div gran)) = False" using k by simp
  have c4: "(n < n) = False" by simp
  show ?thesis
    unfolding getSlice_def Let_def floorDiv_def
    unfolding tot_def [symmetric] gran_def [symmetric]
    unfolding sr rc
    unfolding sc_def [symmetric]
    unfolding cc_def [symmetric]
    unfolding off_def [symmetric] skip_def [symmetric]
    unfolding btr_def [symmetric]
    unfolding len
    by (simp only: c1 c2 c3 c4 if_False simp_thms)
qed

lemma getSlice_zero_rows:
  "\<exists>r. getSlice s a 0 c m = Some r \<and> rowCount r = 0"
proof -
  have c: "(min 0 (int (totalRows (sl_index s))
              - max 0 (min a (int (totalRows (sl_index s)) - 1))) \<le> 0) = True"
    by simp
  show ?thesis
    unfolding getSlice_def Let_def by (simp only: c if_True) (simp add: response_def)
qed

lemma parseRows_no_newline:
  assumes "NEWLINE \<notin> set r" and "0 < k"
  shows "parseRows r k n sc cc = []"
proof -
  have "skipLoop ([] @ r @ []) k (length ([] :: char list)) 0
        = skipLoop ([] @ r @ []) k (length ([] :: char list) + length r) 0"
    using assms by (rule skipLoop_block)
  then have "skipLoop r k 0 0 = length r" by (simp add: skipLoop_stop)
  then show ?thesis by (simp add: parseRows_def parseLoop_stop)
qed

lemma buildIndex_long_record_file:
  "buildIndex seed_config [long_record_file]
     = \<lparr>totalRows = 2, offsets = [0, 40005], granularity = 2\<rparr>"
proof -
  have g: "0 < indexGranularity seed_config" by (simp add: seed_config_def)
  have nl: "\<forall>r\<in>set [replicate 40000 (CHR ''x''), ''b;2'']. NEWLINE \<notin> set r"
    by (simp add: NEWLINE_def)
  have r: "NEWLINE \<notin> set []" by simp
  have f: "concat [long_record_file] = file_of [replicate 40000 (CHR ''x''), ''b;2''] @ []"
    by (simp add: long_record_file_def)
  show ?thesis
    unfolding buildIndex_records [OF g nl r f]
    by (simp add: seed_config_def)
qed

lemma getSlice_long_record_file:
  "getSlice (slicerFor seed_config [long_record_file]) 1 1 0 2
     = Some \<lparr>startRow = 1, rowCount = 0, startCol = 0, colCount = 2,
             colLetters = [''A'', ''B''], cellsByRow = []\<rparr>"
proof -
  let ?S = "slicerFor seed_config [long_record_file]"
  have len: "length long_record_file = 40005" by (simp add: long_record_file_def)
  have S: "?S = \<lparr>sl_file = long_record_file, sl_fileSize = 40005,
                  sl_index = \<lparr>totalRows = 2, offsets = [0, 40005], granularity = 2\<rparr>\<rparr>"
    by (simp add: slicerFor_def newSlicer_def buildIndex_long_record_file len)
  have x: "NEWLINE \<notin> set (replicate j (CHR ''x''))" for j
    by (simp add: NEWLINE_def)
  have c1: "readBytes ?S 0 32768 = replicate 32768 (CHR ''x'')"
    by (simp add: S readBytes_def js_slice_def Let_def len) (simp add: long_record_file_def)
  have c2: "readBytes ?S 0 32818 = replicate 32818 (CHR ''x'')"
    by (simp add: S readBytes_def js_slice_def Let_def len) (simp add: long_record_file_def)
  have p1: "parseRows (readBytes ?S 0 32768) 1 1 0 2 = []"
    unfolding c1 by (rule parseRows_no_newline [OF x]) simp
  have p2: "parseRows (readBytes ?S 0 32818) 1 1 0 2 = []"
    unfolding c2 by (rule parseRows_no_newline [OF x]) simp
  have i: "sl_index ?S = \<lparr>totalRows = 2, offsets = [0, 40005], granularity = 2\<rparr>"
    and fs: "sl_fileSize ?S = 40005"
    by (simp_all add: S)
  show ?thesis
    unfolding getSlice_def Let_def i fs
    by (simp add: floorDiv_def TOTAL_COLS_def READ_BUFFER_SIZE_def p1 p2 response_def
        COL_LETTERS_def js_slice_def)
qed

text \<open>
  C2 as stated fails twice. The parser skips an empty line that the indexer has
  counted: three rows requested from a three-line file with an empty second line
  give two. And one retry does not reach past a long record: the second row of a
  file whose first record has 40000 bytes is requested and none is returned.
\<close>

theorem getSlice_rowCount_counterexample:
  "totalRows (buildIndex seed_config [blank_line_file]) = 3
   \<and> map_option rowCount (getSlice (slicerFor seed_config [blank_line_file]) 0 3 0 2) = Some 2
   \<and> totalRows (buildIndex seed_config [long_record_file]) = 2
   \<and> map_option rowCount (getSlice (slicerFor seed_config [long_record_file]) 1 1 0 2) = Some 0"
proof -
  have "totalRows (buildIndex seed_config [blank_line_file]) = 3" by code_simp
  moreover have "map_option rowCount (getSlice (slicerFor seed_config [blank_line_file]) 0 3 0 2)
                 = Some 2"
    by code_simp
  ultimately show ?thesis
    by (simp add: buildIndex_long_record_file getSlice_long_record_file)
qed

text \<open>
  C2, as amended. The file holds the records \<open>recs\<close>, each followed by the line
  terminator, and possibly an unterminated rest; every record is non-empty and,
  with its terminator, at most 30 bytes long; the file has fewer than \<open>2^64\<close> bytes
  and the index is built from it with a granularity of at least 1. Then every
  request with \<open>0 \<le> startRow\<close>, \<open>0 \<le> rowCount\<close> and
  \<open>startRow + rowCount \<le> totalRows\<close> is answered with exactly \<open>rowCount\<close> rows.
\<close>

theorem getSlice_rowCount_exact:
  assumes recs: "\<forall>r\<in>set recs. r \<noteq> [] \<and> NEWLINE \<notin> set r \<and> length r < 30"
    and rest: "NEWLINE \<notin> set rest"
    and data: "concat chunks = file_of recs @ rest"
    and size: "length (concat chunks) < 2 ^ 64"
    and gran: "0 < indexGranularity config"
    and req: "0 \<le> a" "0 \<le> n" "a + n \<le> int (length recs)"
  shows "totalRows (buildIndex config chunks) = length recs
       \<and> (\<exists>r. getSlice (slicerFor config chunks) a n c m = Some r \<and> rowCount r = n)"
proof -
  have nl: "\<forall>r\<in>set recs. NEWLINE \<notin> set r" using recs by simp
  have tot: "totalRows (buildIndex config chunks) = length recs"
    using buildIndex_records [OF gran nl rest data] by simp
  have "\<exists>r. getSlice (slicerFor config chunks) a n c m = Some r \<and> rowCount r = n"
  proof (cases "n = 0")
    case True
    then show ?thesis using getSlice_zero_rows by simp
  next
    case False
    then have n: "0 < n" using req(2) by simp
    define g where "g = indexGranularity config"
    define D where "D = file_of recs @ rest"
    define k where "k = nat a div g"
    define s where "s = nat a mod g"
    define n' where "n' = nat n"
    define recs' where "recs' = drop (k * g) recs"
    define anchor where "anchor = length (file_of (take (k * g) recs))"
    define q where "q = s + n' - 1"
    define S where "S = slicerFor config chunks"
    have g: "0 < g" using gran by (simp add: g_def)
    have idx: "sl_index S =
             \<lparr>totalRows = length recs,
              offsets = map (\<lambda>k. word_of_nat (length (file_of (take (k * g) recs))))
                          [0..<length recs div g + 1],
              granularity = g\<rparr>"
      using buildIndex_records [OF gran nl rest data]
      by (simp add: S_def slicerFor_def newSlicer_def g_def)
    have sfile: "sl_file S = D" and ssize: "sl_fileSize S = int (length D)"
      by (simp_all add: S_def slicerFor_def newSlicer_def data D_def)
    have a_eq: "nat a = k * g + s" by (simp add: k_def s_def)
    have s_lt: "s < g" using g by (simp add: s_def)
    have an: "nat a + n' \<le> length recs" using req n by (simp add: n'_def)
    have n'_pos: "0 < n'" using n by (simp add: n'_def)
    have adiv: "a div int g = int k"
      using req(1) by (simp add: k_def zdiv_int)
    have k_lt: "k < length recs div g + 1"
    proof -
      have "nat a \<le> length recs" using an by simp
      then have "nat a div g \<le> length recs div g" by (rule div_le_mono)
      then show ?thesis by (simp add: k_def)
    qed
    have kg: "k * g \<le> length recs" using a_eq an by simp
    have D_split: "D = file_of (take (k * g) recs) @ file_of recs' @ rest"
      using file_of_split [of recs "k * g"] by (simp add: D_def recs'_def)
    have anchor_le: "anchor \<le> length D" by (simp add: D_split anchor_def)
    have anchor_64: "anchor < 2 ^ 64" using anchor_le size by (simp add: data D_def)
    have gr: "granularity (sl_index S) = g" and tr: "totalRows (sl_index S) = length recs"
      and lo: "length (offsets (sl_index S)) = length recs div g + 1"
      by (simp_all add: idx)
    have nth: "offsets (sl_index S) ! k = word_of_nat anchor"
      using k_lt by (simp add: idx anchor_def del: upt_Suc)
    have off: "int (unat (offsets (sl_index S) ! nat (a div int (granularity (sl_index S)))))
               = int anchor"
      by (simp only: gr adiv nat_int nth unat_word_of_nat_64 [OF anchor_64])
    have skip: "a - a div int (granularity (sl_index S)) * int (granularity (sl_index S)) = int s"
    proof -
      have "a = int (k * g + s)" using a_eq req(1) by (metis nat_0_le)
      then have "a = int k * int g + int s" by simp
      then show ?thesis unfolding gr adiv by linarith
    qed
    have len_recs': "length recs' = length recs - k * g" by (simp add: recs'_def)
    have q_lt: "q < length recs'"
      using an a_eq n'_pos by (simp add: q_def len_recs')
    have recs'_ok: "\<forall>r\<in>set recs'. r \<noteq> [] \<and> NEWLINE \<notin> set r \<and> length r < 30"
      using recs unfolding recs'_def by (meson in_set_dropD)
    define lenq where "lenq = length (file_of (take q recs'))"
    have lenq_30: "lenq \<le> 30 * q"
    proof -
      have "\<forall>r\<in>set (take q recs'). length r < 30"
        using recs'_ok by (meson in_set_takeD)
      then have "length (file_of (take q recs')) \<le> 30 * length (take q recs')"
        by (rule length_file_of_le)
      then show ?thesis using q_lt by (simp add: lenq_def)
    qed
    define X where "X = file_of (drop q recs') @ rest"
    have X_cons: "X = recs' ! q @ NEWLINE # file_of (drop (Suc q) recs') @ rest"
      using q_lt by (simp add: X_def Cons_nth_drop_Suc [symmetric])
    have rq: "recs' ! q \<noteq> []" "NEWLINE \<notin> set (recs' ! q)"
      using recs'_ok q_lt by simp_all
    have X_ne: "X \<noteq> []" using X_cons by simp
    have hdX: "hd X \<noteq> NEWLINE"
    proof -
      have "hd X = hd (recs' ! q)" using rq(1) by (simp add: X_cons)
      moreover have "hd (recs' ! q) \<in> set (recs' ! q)" using rq(1) by simp
      ultimately show ?thesis using rq(2) by metis
    qed
    have drop_D: "drop anchor D = file_of (take q recs') @ X"
      using file_of_split [of recs' q] by (simp add: D_split anchor_def X_def)
    have len_drop: "length D - anchor = lenq + length X"
      using arg_cong [OF drop_D, of length] by (simp add: lenq_def)
    define btr where
      "btr = min (max ((int s + n) * 30) READ_BUFFER_SIZE) (int (length D) - int anchor)"
    have btr_gt: "int lenq < btr"
    proof -
      have "int q < int s + n" using n by (simp add: q_def n'_def)
      moreover have "int lenq \<le> 30 * int q"
        using lenq_30 by (metis of_nat_le_iff of_nat_mult of_nat_numeral)
      moreover have "(int s + n) * 30 = 30 * int s + 30 * n" by simp
      ultimately have "int lenq < (int s + n) * 30" by linarith
      moreover have "int lenq < int (length D) - int anchor"
        using len_drop X_ne anchor_le by (cases X) (simp_all add: of_nat_diff)
      ultimately show ?thesis by (simp add: btr_def)
    qed
    define tl0 where "tl0 = take (nat btr - lenq) X"
    have more: "lenq < nat btr" using btr_gt by linarith
    have tl0_ne: "tl0 \<noteq> []" using more X_ne by (simp add: tl0_def)
    have hd_tl0: "hd tl0 \<noteq> NEWLINE"
      using hdX more X_ne by (cases X) (simp_all add: tl0_def take_Cons')
    have chunk: "readBytes S (int anchor) btr = file_of (take q recs') @ tl0"
    proof -
      have "0 \<le> btr" using btr_gt by simp
      then have "readBytes S (int anchor) btr = take (nat btr) (drop anchor D)"
        by (simp add: readBytes_def sfile js_slice_take_drop)
      also have "\<dots> = file_of (take q recs') @ tl0"
        using more by (simp add: drop_D tl0_def lenq_def)
      finally show ?thesis .
    qed
    let ?sc = "max 0 (min c (TOTAL_COLS - 1))"
    let ?cc = "min m (TOTAL_COLS - ?sc)"
    have rs_ok: "\<forall>r\<in>set (take q recs'). r \<noteq> [] \<and> NEWLINE \<notin> set r"
      using recs'_ok by (meson in_set_takeD)
    have cnt: "s + n' = length (take q recs') + 1"
      using q_lt n'_pos by (simp add: q_def)
    have "int (length (parseRows (file_of (take q recs') @ tl0) (int s) (int n') ?sc ?cc)) = int n'"
      using rs_ok tl0_ne hd_tl0 cnt n'_pos by (rule parseRows_count)
    then have rows: "int (length (parseRows (readBytes S (int anchor) btr) (int s) n ?sc ?cc)) = n"
      using n by (simp add: chunk n'_def)
    have "getSlice S a n c m
          = Some (response a ?sc ?cc (parseRows (readBytes S (int anchor) btr) (int s) n ?sc ?cc))"
    proof -
      have 1: "a + n \<le> int (totalRows (sl_index S))" using req(3) by (simp add: tr)
      have 2: "int (granularity (sl_index S)) \<noteq> 0" using g by (simp add: gr)
      have 3: "nat (a div int (granularity (sl_index S))) < length (offsets (sl_index S))"
        using k_lt by (simp add: gr lo adiv)
      have b: "min (max ((int s + n) * 30) READ_BUFFER_SIZE) (sl_fileSize S - int anchor) = btr"
        by (simp add: btr_def ssize)
      show ?thesis
        using getSlice_first_read [of a n S c m, OF req(1) n 1 2 3]
        unfolding off skip b using rows by simp
    qed
    then show ?thesis
      using rows by (simp add: S_def response_def)
  qed
  with tot show ?thesis by simp
qed

theorem getSlice_rowCount_exact_witness:
  "list_all (\<lambda>r. r \<noteq> [] \<and> NEWLINE \<notin> set r \<and> length r < 30) seed_records
   \<and> concat [seed_file] = file_of seed_records @ []
   \<and> length (concat [seed_file]) < 2 ^ 64
   \<and> 0 < indexGranularity seed_config
   \<and> (1::int) + 3 \<le> int (length seed_records)
   \<and> map_option rowCount (getSlice (slicerFor seed_config [seed_file]) 1 3 0 2) = Some 3"
proof -
  have h1: "\<forall>r\<in>set seed_records. r \<noteq> [] \<and> NEWLINE \<notin> set r \<and> length r < 30"
    by (simp add: seed_records_def NEWLINE_def)
  have h2: "NEWLINE \<notin> set []" by simp
  have h3: "concat [seed_file] = file_of seed_records @ []"
    by (simp add: seed_file_def seed_records_def)
  have h4: "length (concat [seed_file]) < 2 ^ 64" by (simp add: length_seed_file)
  have h5: "0 < indexGranularity seed_config" by (simp add: seed_config_def)
  have h6: "(0::int) \<le> 1" "(0::int) \<le> 3" "(1::int) + 3 \<le> int (length seed_records)"
    by (simp_all add: seed_records_def)
  from getSlice_rowCount_exact [OF h1 h2 h3 h4 h5 h6, of 0 2]
  have "map_option rowCount (getSlice (slicerFor seed_config [seed_file]) 1 3 0 2) = Some 3"
    by auto
  with h1 h3 h4 h5 h6 show ?thesis by (simp add: list_all_iff)
qed

text \<open>Every file is a sequence of terminated records and an unterminated rest.\<close>

lemma file_decompose:
  "\<exists>recs rest. data = file_of recs @ rest
       \<and> (\<forall>r\<in>set recs. NEWLINE \<notin> set r) \<and> NEWLINE \<notin> set rest"
proof (induction data)
  case Nil
  have "[] = file_of [] @ [] \<and> (\<forall>r\<in>set []. NEWLINE \<notin> set r) \<and> NEWLINE \<notin> set []"
    by simp
  then show ?case by blast
next
  case (Cons x xs)
  then obtain recs rest where xs: "xs = file_of recs @ rest"
    and nl: "\<forall>r\<in>set recs. NEWLINE \<notin> set r" and rest: "NEWLINE \<notin> set rest"
    by blast
  show ?case
  proof (cases "x = NEWLINE")
    case True
    have "x # xs = file_of ([] # recs) @ rest \<and> (\<forall>r\<in>set ([] # recs). NEWLINE \<notin> set r)
          \<and> NEWLINE \<notin> set rest"
      using True xs nl rest by simp
    then show ?thesis by blast
  next
    case False
    show ?thesis
    proof (cases recs)
      case Nil
      have "x # xs = file_of [] @ (x # rest) \<and> (\<forall>r\<in>set []. NEWLINE \<notin> set r)
            \<and> NEWLINE \<notin> set (x # rest)"
        using False xs rest Nil by simp
      then show ?thesis by blast
    next
      case (Cons r rs)
      have "x # xs = file_of ((x # r) # rs) @ rest
            \<and> (\<forall>r\<in>set ((x # r) # rs). NEWLINE \<notin> set r) \<and> NEWLINE \<notin> set rest"
        using False xs nl rest Cons by simp
      then show ?thesis by blast
    qed
  qed
qed

lemma getSlice_None:
  assumes "getSlice s a n c m = None"
  shows "0 < min n (int (totalRows (sl_index s))
               - max 0 (min a (int (totalRows (sl_index s)) - 1)))
       \<and> (granularity (sl_index s) = 0
          \<or> length (offsets (sl_index s))
              \<le> nat (max 0 (min a (int (totalRows (sl_index s)) - 1))
                       div int (granularity (sl_index s))))"
proof -
  let ?rc = "min n (int (totalRows (sl_index s))
               - max 0 (min a (int (totalRows (sl_index s)) - 1)))"
  let ?k = "nat (max 0 (min a (int (totalRows (sl_index s)) - 1))
                       div int (granularity (sl_index s)))"
  have 1: "\<not> ?rc \<le> 0"
  proof
    assume "?rc \<le> 0"
    then have "getSlice s a n c m \<noteq> None"
      unfolding getSlice_def Let_def by (simp only: if_True option.distinct simp_thms)
    with assms show False by simp
  qed
  have 2: "granularity (sl_index s) = 0 \<or> length (offsets (sl_index s)) \<le> ?k"
  proof (rule ccontr)
    assume "\<not> (granularity (sl_index s) = 0 \<or> length (offsets (sl_index s)) \<le> ?k)"
    then have g: "(int (granularity (sl_index s)) = 0) = False"
      and k: "(length (offsets (sl_index s)) \<le> ?k) = False"
      by simp_all
    have r: "(?rc \<le> 0) = False" using 1 by simp
    have "getSlice s a n c m \<noteq> None"
      unfolding getSlice_def Let_def floorDiv_def
      by (simp only: r g k if_False option.distinct simp_thms split: if_split)
    with assms show False by simp
  qed
  from 1 have "0 < ?rc" by (simp only: not_le)
  then show ?thesis using 2 by blast
qed

text \<open>
  Over an index built from the file with a positive granularity, \<open>getSlice\<close> answers
  every request: the index entry it looks up exists.
\<close>

lemma getSlice_defined:
  assumes "0 < indexGranularity config"
  shows "\<exists>r. getSlice (slicerFor config chunks) a n c m = Some r"
proof (rule ccontr)
  assume "\<not> (\<exists>r. getSlice (slicerFor config chunks) a n c m = Some r)"
  then have none: "getSlice (slicerFor config chunks) a n c m = None" by simp
  obtain recs rest where f: "concat chunks = file_of recs @ rest"
    and nl: "\<forall>r\<in>set recs. NEWLINE \<notin> set r" and rest: "NEWLINE \<notin> set rest"
    using file_decompose by blast
  define g where "g = indexGranularity config"
  define N where "N = length recs"
  define sr where "sr = max 0 (min a (int N - 1))"
  have g: "0 < g" using assms by (simp add: g_def)
  have idx: "totalRows (sl_index (slicerFor config chunks)) = N"
    "granularity (sl_index (slicerFor config chunks)) = g"
    "length (offsets (sl_index (slicerFor config chunks))) = N div g + 1"
    using buildIndex_records [OF assms nl rest f]
    by (simp_all add: slicerFor_def newSlicer_def g_def N_def)
  from getSlice_None [OF none] have rc: "0 < min n (int N - sr)"
    and k: "N div g + 1 \<le> nat (sr div int g)"
    using g by (simp_all add: idx sr_def)
  have "0 \<le> sr" and "sr < int N" using rc by (simp_all add: sr_def)
  then have "nat sr < N" by simp
  then have "nat sr div g \<le> N div g" by (simp add: div_le_mono)
  moreover have "nat (sr div int g) = nat sr div g"
    using \<open>0 \<le> sr\<close> by (metis nat_div_distrib nat_int)
  ultimately show False using k by simp
qed

text \<open>
  C10. For non-negative arguments every response of \<open>getSlice\<close> is consistent:
  \<open>cellsByRow\<close> has \<open>rowCount\<close> rows and every row has \<open>colCount\<close> cells. A response
  is given whenever the index was built from the file with a positive granularity.
\<close>

theorem getSlice_consistent:
  assumes "0 \<le> a" and "0 \<le> n" and "0 \<le> c" and "0 \<le> m"
  shows "(\<forall>r. getSlice s a n c m = Some r \<longrightarrow>
            int (length (cellsByRow r)) = rowCount r
            \<and> (\<forall>row\<in>set (cellsByRow r). int (length row) = colCount r))
       \<and> (0 < indexGranularity config \<longrightarrow>
            (\<exists>r. getSlice (slicerFor config chunks) a n c m = Some r))"
proof -
  let ?sc = "max 0 (min c (TOTAL_COLS - 1))"
  let ?cc = "min m (TOTAL_COLS - ?sc)"
  let ?resp = "response (max 0 (min a (int (totalRows (sl_index s)) - 1))) ?sc ?cc"
  have sc: "0 \<le> ?sc" by simp
  have cc: "0 \<le> ?cc" using assms(4) by (simp add: TOTAL_COLS_def)
  have "int (length (cellsByRow r)) = rowCount r
        \<and> (\<forall>row\<in>set (cellsByRow r). int (length row) = colCount r)"
    if r: "getSlice s a n c m = Some r" for r
  proof (rule getSlice_cases [OF r])
    show "int (length (cellsByRow (?resp []))) = rowCount (?resp [])
         \<and> (\<forall>row\<in>set (cellsByRow (?resp [])). int (length row) = colCount (?resp []))"
      by (rule response_consistent) simp
    show "int (length (cellsByRow (?resp (parseRows data skipRows maxRows0 ?sc ?cc))))
            = rowCount (?resp (parseRows data skipRows maxRows0 ?sc ?cc))
         \<and> (\<forall>row\<in>set (cellsByRow (?resp (parseRows data skipRows maxRows0 ?sc ?cc))).
               int (length row) = colCount (?resp (parseRows data skipRows maxRows0 ?sc ?cc)))"
      for data skipRows maxRows0
      by (rule response_consistent) (rule parseRows_row_lengths [OF sc cc])
  qed
  then show ?thesis using getSlice_defined by blast
qed

theorem getSlice_consistent_witness:
  "(0::int) \<le> 0 \<and> (0::int) \<le> 3 \<and> (0::int) \<le> 2 \<and> 0 < indexGranularity seed_config
   \<and> getSlice (slicerFor seed_config [seed_file]) 0 3 0 2 =
       Some \<lparr>startRow = 0, rowCount = 3, startCol = 0, colCount = 2,
             colLetters = [''A'', ''B''],
             cellsByRow = [[''Hamburg'', ''12.0''], [''Bulawayo'', ''8.9''],
                           [''Palembang'', ''38.8'']]\<rparr>
   \<and> int (length [[''Hamburg'', ''12.0''], [''Bulawayo'', ''8.9''], [''Palembang'', ''38.8'']]) = 3
   \<and> list_all (\<lambda>row. int (length row) = 2)
        [[''Hamburg'', ''12.0''], [''Bulawayo'', ''8.9''], [''Palembang'', ''38.8'']]"
proof -
  have v: "getSlice (slicerFor seed_config [seed_file]) 0 3 0 2 =
       Some \<lparr>startRow = 0, rowCount = 3, startCol = 0, colCount = 2,
             colLetters = [''A'', ''B''],
             cellsByRow = [[''Hamburg'', ''12.0''], [''Bulawayo'', ''8.9''],
                           [''Palembang'', ''38.8'']]\<rparr>"
    by code_simp
  have h: "(0::int) \<le> 0" "(0::int) \<le> 3" "(0::int) \<le> 2" by simp_all
  have g: "0 < indexGranularity seed_config" by (simp add: seed_config_def)
  from getSlice_consistent [OF h(1) h(2) h(1) h(3),
      of "slicerFor seed_config [seed_file]" seed_config "[seed_file]"] v g
  show ?thesis
    by (simp add: list_all_iff)
qed

end
